theory Spec2Isabelle
  imports Complex_Main
begin

section \<open>Binary64 arithmetic\<close>

text \<open>
  Python's \<^verbatim>\<open>float\<close> is an IEEE 754 binary64 number. A finite double is represented by
  the real number it denotes; the two infinities and NaN are separate constructors. The
  sign of a zero is not represented (no operation of \<^verbatim>\<open>verify_kerr.py\<close> distinguishes
  \<^verbatim>\<open>-0.0\<close> from \<^verbatim>\<open>0.0\<close> in a comparison or in the value of a result).
\<close>

datatype pyfloat = Fin real | PInf | NInf | NaN

text \<open>
  \<open>expo x\<close> is the binary exponent of the binade of \<open>x\<close> (at least \<open>-1022\<close>, where the
  subnormal numbers start), \<open>ulp x\<close> the distance of two neighbouring doubles in that
  binade (53 significant bits), \<open>rne\<close> rounds a real to the nearest integer, a tie to the
  even one, and \<open>rnd x\<close> is the multiple of \<open>ulp x\<close> nearest to \<open>x\<close>: rounding to nearest,
  ties to even, with gradual underflow and an unbounded exponent upwards.
\<close>

definition expo :: "real \<Rightarrow> int" where
  "expo x = (if \<bar>x\<bar> < 2 powr (-1022) then -1022 else \<lfloor>log 2 \<bar>x\<bar>\<rfloor>)"

definition ulp :: "real \<Rightarrow> real" where
  "ulp x = 2 powr (of_int (expo x) - 52)"

definition rne :: "real \<Rightarrow> int" where
  "rne q = (let f = \<lfloor>q\<rfloor>; d = q - of_int f
            in if d < 1/2 then f else if 1/2 < d then f + 1
               else if even f then f else f + 1)"

definition rnd :: "real \<Rightarrow> real" where
  "rnd x = of_int (rne (x / ulp x)) * ulp x"

text \<open>
  \<open>ofl r\<close> is the double delivered for the exact result \<open>r\<close> of an operation: the rounded
  value, or an infinity when the rounded value leaves the finite range.
\<close>

definition ofl :: "real \<Rightarrow> pyfloat" where
  "ofl r = (let v = rnd r
            in if 2 ^ 1024 \<le> v then PInf else if v \<le> - (2 ^ 1024) then NInf else Fin v)"

definition is_double :: "real \<Rightarrow> bool" where
  "is_double x \<longleftrightarrow> rnd x = x \<and> \<bar>x\<bar> < 2 ^ 1024"

subsection \<open>Comparisons, \<^verbatim>\<open>min\<close>, \<^verbatim>\<open>max\<close>, \<^verbatim>\<open>abs\<close>\<close>

text \<open>Every comparison with NaN is false.\<close>

fun flt :: "pyfloat \<Rightarrow> pyfloat \<Rightarrow> bool" where
  "flt (Fin x) (Fin y) = (x < y)"
| "flt NaN _ = False"
| "flt _ NaN = False"
| "flt NInf NInf = False"
| "flt NInf _ = True"
| "flt _ NInf = False"
| "flt PInf _ = False"
| "flt _ PInf = True"

definition is_nan :: "pyfloat \<Rightarrow> bool" where
  "is_nan a = (case a of NaN \<Rightarrow> True | _ \<Rightarrow> False)"

definition fge :: "pyfloat \<Rightarrow> pyfloat \<Rightarrow> bool" where
  "fge a b = (\<not> is_nan a \<and> \<not> is_nan b \<and> \<not> flt a b)"

text \<open>
  The builtins \<^verbatim>\<open>min(a, b)\<close> and \<^verbatim>\<open>max(a, b)\<close> keep the first argument unless the second
  one is strictly smaller (greater); a NaN first argument is therefore kept.
\<close>

definition py_min :: "pyfloat \<Rightarrow> pyfloat \<Rightarrow> pyfloat" where
  "py_min a b = (if flt b a then b else a)"

definition py_max :: "pyfloat \<Rightarrow> pyfloat \<Rightarrow> pyfloat" where
  "py_max a b = (if flt a b then b else a)"

fun fneg :: "pyfloat \<Rightarrow> pyfloat" where
  "fneg (Fin x) = Fin (- x)"
| "fneg PInf = NInf"
| "fneg NInf = PInf"
| "fneg NaN = NaN"

fun fabs :: "pyfloat \<Rightarrow> pyfloat" where
  "fabs (Fin x) = Fin \<bar>x\<bar>"
| "fabs PInf = PInf"
| "fabs NInf = PInf"
| "fabs NaN = NaN"

subsection \<open>Arithmetic\<close>

fun fadd :: "pyfloat \<Rightarrow> pyfloat \<Rightarrow> pyfloat" where
  "fadd (Fin x) (Fin y) = ofl (x + y)"
| "fadd NaN _ = NaN"
| "fadd _ NaN = NaN"
| "fadd PInf NInf = NaN"
| "fadd NInf PInf = NaN"
| "fadd PInf _ = PInf"
| "fadd NInf _ = NInf"
| "fadd _ PInf = PInf"
| "fadd _ NInf = NInf"

definition fsub :: "pyfloat \<Rightarrow> pyfloat \<Rightarrow> pyfloat" where
  "fsub a b = fadd a (fneg b)"

text \<open>The sign of an infinite product or quotient; zero times infinity is NaN.\<close>

definition signed_inf :: "bool \<Rightarrow> pyfloat" where
  "signed_inf positive = (if positive then PInf else NInf)"

fun fmul :: "pyfloat \<Rightarrow> pyfloat \<Rightarrow> pyfloat" where
  "fmul (Fin x) (Fin y) = ofl (x * y)"
| "fmul NaN _ = NaN"
| "fmul _ NaN = NaN"
| "fmul PInf (Fin y) = (if y = 0 then NaN else signed_inf (0 < y))"
| "fmul NInf (Fin y) = (if y = 0 then NaN else signed_inf (y < 0))"
| "fmul (Fin x) PInf = (if x = 0 then NaN else signed_inf (0 < x))"
| "fmul (Fin x) NInf = (if x = 0 then NaN else signed_inf (x < 0))"
| "fmul PInf PInf = PInf"
| "fmul NInf NInf = PInf"
| "fmul PInf NInf = NInf"
| "fmul NInf PInf = NInf"

section \<open>Exceptions\<close>

datatype exn = ValueError | ZeroDivisionError | OverflowError | TypeError | StatisticsError

definition bind_exn :: "exn + 'a \<Rightarrow> ('a \<Rightarrow> exn + 'b) \<Rightarrow> exn + 'b" where
  "bind_exn m f = (case m of Inl e \<Rightarrow> Inl e | Inr v \<Rightarrow> f v)"

text \<open>Python's float division raises on a zero divisor instead of returning an infinity.\<close>

fun fdiv :: "pyfloat \<Rightarrow> pyfloat \<Rightarrow> exn + pyfloat" where
  "fdiv a (Fin y) =
     (if y = 0 then Inl ZeroDivisionError
      else case a of
             Fin x \<Rightarrow> Inr (ofl (x / y))
           | PInf \<Rightarrow> Inr (signed_inf (0 < y))
           | NInf \<Rightarrow> Inr (signed_inf (y < 0))
           | NaN \<Rightarrow> Inr NaN)"
| "fdiv a NaN = Inr NaN"
| "fdiv (Fin x) _ = Inr (Fin 0)"
| "fdiv _ _ = Inr NaN"

section \<open>The \<^verbatim>\<open>math\<close> module and the power operator\<close>

text \<open>
  \<^verbatim>\<open>math.sqrt\<close> is the correctly rounded square root of IEEE 754. The C library's
  \<^verbatim>\<open>pow\<close>, \<^verbatim>\<open>cos\<close> and \<^verbatim>\<open>acos\<close> are not part of the repository and no standard fixes
  their rounding: they are a parameter of the model, as functions on the values of finite
  doubles.
\<close>

record libm =
  lpow :: "real \<Rightarrow> real \<Rightarrow> real"
  lcos :: "real \<Rightarrow> real"
  lacos :: "real \<Rightarrow> real"

fun py_sqrt :: "pyfloat \<Rightarrow> exn + pyfloat" where
  "py_sqrt (Fin x) = (if x < 0 then Inl ValueError else Inr (Fin (rnd (sqrt x))))"
| "py_sqrt PInf = Inr PInf"
| "py_sqrt NInf = Inl ValueError"
| "py_sqrt NaN = Inr NaN"

fun py_acos :: "libm \<Rightarrow> pyfloat \<Rightarrow> exn + pyfloat" where
  "py_acos L (Fin x) = (if 1 < \<bar>x\<bar> then Inl ValueError else Inr (Fin (lacos L x)))"
| "py_acos L NaN = Inr NaN"
| "py_acos L _ = Inl ValueError"

fun py_cos :: "libm \<Rightarrow> pyfloat \<Rightarrow> exn + pyfloat" where
  "py_cos L (Fin x) = Inr (Fin (lcos L x))"
| "py_cos L NaN = Inr NaN"
| "py_cos L _ = Inl ValueError"

text \<open>
  \<^verbatim>\<open>x ** y\<close> for a float \<open>x\<close> and a finite float exponent \<open>y\<close>, after \<^verbatim>\<open>float_pow\<close> of
  CPython: the exponent zero and the base one are answered without calling the C library,
  a negative base with a fractional exponent gives a complex number (which the next
  \<^verbatim>\<open>math.sqrt\<close> rejects with a \<^verbatim>\<open>TypeError\<close>: that exception stands for it here), and a
  result of \<^verbatim>\<open>pow\<close> out of range is an \<^verbatim>\<open>OverflowError\<close>.
\<close>

definition odd_integer :: "real \<Rightarrow> bool" where
  "odd_integer y \<longleftrightarrow> y = of_int \<lfloor>y\<rfloor> \<and> odd \<lfloor>y\<rfloor>"

definition checked_pow :: "libm \<Rightarrow> real \<Rightarrow> real \<Rightarrow> exn + pyfloat" where
  "checked_pow L x y =
     (if x = 1 then Inr (Fin 1)
      else let r = lpow L x y
           in if 2 ^ 1024 \<le> \<bar>r\<bar> then Inl OverflowError else Inr (Fin r))"

fun py_pow :: "libm \<Rightarrow> pyfloat \<Rightarrow> real \<Rightarrow> exn + pyfloat" where
  "py_pow L (Fin x) y =
     (if y = 0 then Inr (Fin 1)
      else if x = 0 then (if y < 0 then Inl ZeroDivisionError else Inr (Fin 0))
      else if x < 0 then
        (if y \<noteq> of_int \<lfloor>y\<rfloor> then Inl TypeError
         else if odd_integer y then bind_exn (checked_pow L (- x) y) (\<lambda>r. Inr (fneg r))
         else checked_pow L (- x) y)
      else checked_pow L x y)"
| "py_pow L NaN y = (if y = 0 then Inr (Fin 1) else Inr NaN)"
| "py_pow L PInf y = (if y = 0 then Inr (Fin 1) else if 0 < y then Inr PInf else Inr (Fin 0))"
| "py_pow L NInf y =
     (if y = 0 then Inr (Fin 1)
      else if 0 < y then (if odd_integer y then Inr NInf else Inr PInf)
      else Inr (Fin 0))"

section \<open>The validation script\<close>

subsection \<open>Constants and reference tables\<close>

text \<open>A decimal literal denotes the double nearest to it.\<close>

definition G :: pyfloat where
  "G = Fin (rnd (667430 / 10 ^ 16))"

definition C :: int where
  "C = 299792458"

definition SOLAR_MASS :: pyfloat where
  "SOLAR_MASS = Fin (rnd (198847 * 10 ^ 25))"

text \<open>A dict keeps its items in insertion order: the tables are association lists.\<close>

definition REFERENCE_ISCO :: "(pyfloat \<times> pyfloat) list" where
  "REFERENCE_ISCO =
     [(Fin 0, Fin 6),
      (Fin (1/2), Fin (rnd (4233 / 1000))),
      (Fin (rnd (9 / 10)), Fin (rnd (2320 / 1000))),
      (Fin (rnd (998 / 1000)), Fin (rnd (1237 / 1000)))]"

definition REFERENCE_PHOTON :: "(pyfloat \<times> pyfloat) list" where
  "REFERENCE_PHOTON =
     [(Fin 0, Fin 3),
      (Fin (1/2), Fin (rnd (23472963553 / 10 ^ 10))),
      (Fin (rnd (9 / 10)), Fin (rnd (15578546274 / 10 ^ 10))),
      (Fin (rnd (998 / 1000)), Fin (rnd (10739092577 / 10 ^ 10)))]"

subsection \<open>Formula evaluator\<close>

text \<open>
  \<^verbatim>\<open>(2 * G * mass_solar * SOLAR_MASS) / (C * C)\<close>: the product of the two integers is exact
  and is converted to a double for the division.
\<close>

definition gravitational_radius :: "pyfloat \<Rightarrow> exn + pyfloat" where
  "gravitational_radius mass =
     fdiv (fmul (fmul (fmul (Fin 2) G) mass) SOLAR_MASS) (ofl (of_int (C * C)))"

definition third :: real where
  "third = rnd (1 / 3)"

definition isco_radius :: "libm \<Rightarrow> pyfloat \<Rightarrow> exn + pyfloat" where
  "isco_radius L spin =
     (let a = py_max (py_min spin (Fin (rnd (998 / 1000)))) (Fin (- rnd (998 / 1000)))
      in bind_exn (py_pow L (fsub (Fin 1) (fmul a a)) third) (\<lambda>term.
         bind_exn (py_pow L (fadd (Fin 1) a) third) (\<lambda>p.
         bind_exn (py_pow L (fsub (Fin 1) a) third) (\<lambda>q.
         let z1 = fadd (Fin 1) (fmul term (fadd p q))
         in bind_exn (py_sqrt (fadd (fmul (fmul (Fin 3) a) a) (fmul z1 z1))) (\<lambda>z2.
            let sign = (if fge a (Fin 0) then Fin 1 else Fin (- 1))
            in bind_exn
                 (py_sqrt (fmul (fsub (Fin 3) z1) (fadd (fadd (Fin 3) z1) (fmul (Fin 2) z2))))
                 (\<lambda>s. Inr (fsub (fadd (Fin 3) z2) (fmul sign s))))))))"

definition photon_radius :: "libm \<Rightarrow> pyfloat \<Rightarrow> exn + pyfloat" where
  "photon_radius L spin =
     (let a = py_max (py_min (fabs spin) (Fin (rnd (999 / 1000)))) (Fin (rnd (1 / 10 ^ 6)))
      in bind_exn (py_acos L (fneg a)) (\<lambda>ac.
         bind_exn (py_cos L (fmul (ofl (2 / 3)) ac)) (\<lambda>c.
         Inr (fmul (Fin 2) (fadd (Fin 1) c)))))"

subsection \<open>Reference comparator\<close>

fun check_series ::
  "(pyfloat \<times> pyfloat) list \<Rightarrow> (pyfloat \<Rightarrow> exn + pyfloat) \<Rightarrow> string
     \<Rightarrow> exn + (string \<times> pyfloat \<times> pyfloat) list" where
  "check_series [] fn label = Inr []"
| "check_series ((spin, expected) # reference) fn label =
     bind_exn (fn spin) (\<lambda>v.
     bind_exn (fdiv (fabs (fsub v expected)) expected) (\<lambda>rel_err.
     bind_exn (check_series reference fn label) (\<lambda>entries.
     Inr ((label, spin, rel_err) # entries))))"

subsection \<open>Report aggregator\<close>

text \<open>
  \<^verbatim>\<open>max\<close> of a list keeps the first maximal item (and a leading NaN), and raises
  \<^verbatim>\<open>ValueError\<close> on the empty list.
\<close>

fun py_max_list :: "pyfloat list \<Rightarrow> exn + pyfloat" where
  "py_max_list [] = Inl ValueError"
| "py_max_list (x # xs) = Inr (foldl py_max x xs)"

text \<open>
  \<^verbatim>\<open>math.fsum\<close> returns the exact sum of finite items rounded once; its handling of
  non-finite items follows \<^verbatim>\<open>math_fsum\<close> of CPython. \<^verbatim>\<open>statistics.fmean\<close> divides that
  sum by the number of items and raises \<^verbatim>\<open>StatisticsError\<close> when there is none.
\<close>

fun fin_val :: "pyfloat \<Rightarrow> real" where
  "fin_val (Fin x) = x"
| "fin_val _ = 0"

definition fsum :: "pyfloat list \<Rightarrow> exn + pyfloat" where
  "fsum xs =
     (if PInf \<in> set xs \<and> NInf \<in> set xs then Inl ValueError
      else if NaN \<in> set xs then Inr NaN
      else if PInf \<in> set xs then Inr PInf
      else if NInf \<in> set xs then Inr NInf
      else let r = rnd (sum_list (map fin_val xs))
           in if 2 ^ 1024 \<le> \<bar>r\<bar> then Inl OverflowError else Inr (Fin r))"

definition fmean :: "pyfloat list \<Rightarrow> exn + pyfloat" where
  "fmean xs =
     bind_exn (fsum xs) (\<lambda>total.
     if length xs = 0 then Inl StatisticsError
     else fdiv total (Fin (of_nat (length xs))))"

record summary =
  max_rel_error :: pyfloat
  mean_rel_error :: pyfloat

definition summarize :: "(string \<times> pyfloat \<times> pyfloat) list \<Rightarrow> exn + summary" where
  "summarize errors =
     (let rel_vals = map (\<lambda>(_, _, err). err) errors
      in bind_exn (py_max_list rel_vals) (\<lambda>mx.
         bind_exn (fmean rel_vals) (\<lambda>mn.
         Inr \<lparr>max_rel_error = mx, mean_rel_error = mn\<rparr>)))"

text \<open>
  The report is the dict that \<^verbatim>\<open>run_checks\<close> builds: the two fields of the summary and
  four more. The items of \<^verbatim>\<open>entries\<close> are dicts with three keys.
\<close>

record entry =
  quantity :: string
  spin :: pyfloat
  relative_error :: pyfloat

record report = summary +
  mass_solar :: pyfloat
  grav_radius_m :: pyfloat
  ok :: bool
  entries :: "entry list"

text \<open>
  The state of the world that the script changes: the files it has written and the lines
  it has printed. The JSON text of a report is not modelled: a written file is
  represented by the report it serialises.
\<close>

record world =
  files :: "string \<Rightarrow> report option"
  stdout :: "string list"

definition run_checks :: "libm \<Rightarrow> pyfloat \<Rightarrow> string \<Rightarrow> world \<Rightarrow> exn + (report \<times> world)" where
  "run_checks L mass output w =
     bind_exn (gravitational_radius mass) (\<lambda>grav_radius.
     bind_exn (check_series REFERENCE_ISCO (isco_radius L) ''isco'') (\<lambda>isco_errors.
     bind_exn (check_series REFERENCE_PHOTON (photon_radius L) ''photon'') (\<lambda>photon_errors.
     let errors = [] @ isco_errors @ photon_errors
     in bind_exn (summarize errors) (\<lambda>s.
        let r = \<lparr>max_rel_error = max_rel_error s,
                 mean_rel_error = mean_rel_error s,
                 mass_solar = mass,
                 grav_radius_m = grav_radius,
                 ok = flt (max_rel_error s) (Fin (rnd (8 / 1000))),
                 entries = map (\<lambda>(label, sp, err).
                             \<lparr>quantity = label, spin = sp, relative_error = err\<rparr>) errors\<rparr>
        in Inr (r, w\<lparr>files := (files w)(output \<mapsto> r)\<rparr>)))))"

subsection \<open>Driver\<close>

text \<open>
  The format specification \<^verbatim>\<open>.4e\<close>: one digit, a point, four digits, and a decimal
  exponent of at least two digits; the digits are those of the exact value rounded to
  nearest, ties to even.
\<close>

definition digit :: "int \<Rightarrow> char" where
  "digit d = char_of (48 + d)"

definition exp_digits :: "int \<Rightarrow> string" where
  "exp_digits n =
     (if n < 100 then [digit (n div 10), digit (n mod 10)]
      else [digit (n div 100), digit (n div 10 mod 10), digit (n mod 10)])"

definition sci_4e :: "real \<Rightarrow> string" where
  "sci_4e x =
     (if x = 0 then ''0.0000e+00''
      else let e = \<lfloor>log 10 x\<rfloor>;
               m = rne (x / 10 powr (of_int e - 4));
               e' = (if 100000 \<le> m then e + 1 else e);
               m' = (if 100000 \<le> m then m div 10 else m)
           in [digit (m' div 10000), CHR ''.'', digit (m' div 1000 mod 10),
               digit (m' div 100 mod 10), digit (m' div 10 mod 10), digit (m' mod 10)]
              @ ''e'' @ (if e' < 0 then ''-'' else ''+'') @ exp_digits \<bar>e'\<bar>)"

fun fmt_4e :: "pyfloat \<Rightarrow> string" where
  "fmt_4e (Fin x) = (if x < 0 then ''-'' @ sci_4e (- x) else sci_4e x)"
| "fmt_4e PInf = ''inf''"
| "fmt_4e NInf = ''-inf''"
| "fmt_4e NaN = ''nan''"

text \<open>
  \<^verbatim>\<open>main\<close> after \<^verbatim>\<open>parse_args\<close>: the parsed mass and output path are its arguments, the
  exit status and the new state of the world its result.
\<close>

definition verdict_line :: "report \<Rightarrow> string" where
  "verdict_line r =
     (let verdict = (if ok r then ''PASS'' else ''FAIL'')
      in ''['' @ verdict @ ''] max_rel_error='' @ fmt_4e (max_rel_error r)
         @ '' mean_rel_error='' @ fmt_4e (mean_rel_error r))"

definition main :: "libm \<Rightarrow> pyfloat \<Rightarrow> string \<Rightarrow> world \<Rightarrow> exn + (int \<times> world)" where
  "main L mass output w =
     bind_exn (run_checks L mass output w) (\<lambda>(r, w').
     Inr (if ok r then 0 else 1, w'\<lparr>stdout := stdout w' @ [verdict_line r]\<rparr>))"

section \<open>Assumptions on the C library and auxiliary notions\<close>

text \<open>
  A correctly rounded C library: every function returns the double nearest to the exact
  value. It is the instance at which the theorems that depend on the library are
  exercised.
\<close>

definition cr_libm :: libm where
  "cr_libm = \<lparr>lpow = (\<lambda>x y. rnd (x powr y)), lcos = (\<lambda>x. rnd (cos x)),
               lacos = (\<lambda>x. rnd (arccos x))\<rparr>"

text \<open>
  The accuracy that the numeric results need of the C library: on the arguments that the
  script passes, \<^verbatim>\<open>pow\<close>, \<^verbatim>\<open>acos\<close> and \<^verbatim>\<open>cos\<close> are within \<open>2\<^sup>-\<^sup>4\<^sup>0\<close> of the exact value
  (a library accurate to a few units in the last place is within \<open>2\<^sup>-\<^sup>5\<^sup>0\<close>).
\<close>

definition libm_acc :: "libm \<Rightarrow> bool" where
  "libm_acc L \<longleftrightarrow>
     (\<forall>x. 1 / 512 \<le> x \<and> x \<le> 2 \<longrightarrow> \<bar>lpow L x third - x powr third\<bar> \<le> 1 / 2 ^ 40) \<and>
     (\<forall>x. \<bar>x\<bar> \<le> 1 \<longrightarrow> \<bar>lacos L x - arccos x\<bar> \<le> 1 / 2 ^ 40) \<and>
     (\<forall>x. 0 \<le> x \<and> x \<le> 4 \<longrightarrow> \<bar>lcos L x - cos x\<bar> \<le> 1 / 2 ^ 40)"

text \<open>
  \<open>encl lo hi v\<close>: the float \<open>v\<close> is finite and lies between \<open>lo / 2\<^sup>3\<^sup>0\<close> and
  \<open>hi / 2\<^sup>3\<^sup>0\<close>. Enclosures with integer endpoints carry the numeric evaluation of the
  formulas.
\<close>

definition encl :: "int \<Rightarrow> int \<Rightarrow> pyfloat \<Rightarrow> bool" where
  "encl lo hi v =
     (case v of Fin r \<Rightarrow> of_int lo / 2 ^ 30 \<le> r \<and> r \<le> of_int hi / 2 ^ 30 | _ \<Rightarrow> False)"

text \<open>The world before the script runs: no file written, nothing printed.\<close>

definition world0 :: world where
  "world0 = \<lparr>files = (\<lambda>_. None), stdout = []\<rparr>"

section \<open>Properties of the arithmetic and numeric evaluation\<close>

subsection \<open>Rounding to the nearest integer\<close>

lemma rne_of_int: "rne (of_int n) = n"
  by (simp add: rne_def)

lemma rne_cases: "rne q = \<lfloor>q\<rfloor> \<or> rne q = \<lfloor>q\<rfloor> + 1"
  by (simp add: rne_def Let_def)

lemma rne_err: "\<bar>of_int (rne q) - q\<bar> \<le> 1/2"
  unfolding rne_def Let_def by (auto; linarith)

lemma rne_mono: "x \<le> y \<Longrightarrow> rne x \<le> rne y"
proof -
  assume xy: "x \<le> y"
  have fl: "\<lfloor>x\<rfloor> \<le> \<lfloor>y\<rfloor>" using xy by (rule floor_mono)
  show ?thesis
  proof (cases "\<lfloor>x\<rfloor> = \<lfloor>y\<rfloor>")
    case True
    then show ?thesis using xy unfolding rne_def Let_def by (auto; linarith)
  next
    case False
    then have "\<lfloor>x\<rfloor> + 1 \<le> \<lfloor>y\<rfloor>" using fl by linarith
    moreover have "rne x \<le> \<lfloor>x\<rfloor> + 1" using rne_cases[of x] by linarith
    moreover have "\<lfloor>y\<rfloor> \<le> rne y" using rne_cases[of y] by linarith
    ultimately show ?thesis by linarith
  qed
qed

lemma rne_minus: "rne (- q) = - rne q"
proof (cases "q = of_int \<lfloor>q\<rfloor>")
  case True
  then obtain n where "q = of_int n" by metis
  then show ?thesis using rne_of_int[of n] rne_of_int[of "- n"] by simp
next
  case False
  then have lt: "of_int \<lfloor>q\<rfloor> < q" using of_int_floor_le[of q] by linarith
  have fm: "\<lfloor>- q\<rfloor> = - \<lfloor>q\<rfloor> - 1"
  proof (rule floor_unique)
    show "of_int (- \<lfloor>q\<rfloor> - 1) \<le> - q" by simp linarith
    show "- q < of_int (- \<lfloor>q\<rfloor> - 1) + 1" using lt by simp
  qed
  show ?thesis unfolding rne_def Let_def fm using lt
    by (auto simp: algebra_simps)
qed

subsection \<open>Rounding to the nearest double\<close>

lemma ulp_pos: "0 < ulp x"
  by (simp add: ulp_def)

lemma expo_minus: "expo (- x) = expo x"
  by (simp add: expo_def)

lemma ulp_minus: "ulp (- x) = ulp x"
  by (simp add: ulp_def expo_minus)

lemma rnd_minus: "rnd (- x) = - rnd x"
  by (simp add: rnd_def ulp_minus rne_minus)

lemma rnd_0: "rnd 0 = 0"
  by (simp add: rnd_def rne_def)

lemma expo_ge: "- 1022 \<le> expo x"
proof (cases "\<bar>x\<bar> < 2 powr (-1022)")
  case True
  then show ?thesis by (simp add: expo_def)
next
  case False
  then have "2 powr (-1022) \<le> \<bar>x\<bar>" by simp
  then have "log 2 (2 powr (-1022)) \<le> log 2 \<bar>x\<bar>"
    by (subst log_le_cancel_iff) auto
  then have "-1022 \<le> log 2 \<bar>x\<bar>" by simp
  then have "-1022 \<le> \<lfloor>log 2 \<bar>x\<bar>\<rfloor>" by linarith
  with False show ?thesis by (simp add: expo_def)
qed

lemma expo_normal:
  assumes "2 powr (-1022) \<le> \<bar>x\<bar>"
  shows "2 powr (of_int (expo x)) \<le> \<bar>x\<bar>" and "\<bar>x\<bar> < 2 powr (of_int (expo x) + 1)"
proof -
  have pos: "0 < \<bar>x\<bar>" using assms by (smt (verit) powr_gt_zero)
  have e: "expo x = \<lfloor>log 2 \<bar>x\<bar>\<rfloor>" using assms by (simp add: expo_def)
  have "\<lfloor>log 2 \<bar>x\<bar>\<rfloor> = expo x" using e by simp
  then have "2 powr (of_int (expo x)) \<le> \<bar>x\<bar> \<and> \<bar>x\<bar> < 2 powr (of_int (expo x + 1))"
    using floor_log_eq_powr_iff[OF pos, of 2 "expo x"] by simp
  then show "2 powr (of_int (expo x)) \<le> \<bar>x\<bar>" and "\<bar>x\<bar> < 2 powr (of_int (expo x) + 1)"
    by simp_all
qed

lemma expo_eqI:
  assumes "2 powr (of_int e) \<le> \<bar>x\<bar>" "\<bar>x\<bar> < 2 powr (of_int e + 1)" "-1022 \<le> e"
  shows "expo x = e"
proof -
  have "2 powr (-1022) \<le> (2::real) powr (of_int e)" using assms(3) by (intro powr_mono) auto
  then have n: "2 powr (-1022) \<le> \<bar>x\<bar>" using assms(1) by linarith
  have pos: "0 < \<bar>x\<bar>" using n by (smt (verit) powr_gt_zero)
  have "\<lfloor>log 2 \<bar>x\<bar>\<rfloor> = e"
    using floor_log_eq_powr_iff[OF pos, of 2 e] assms by simp
  with n show ?thesis by (simp add: expo_def)
qed

lemma expo_sub: "\<bar>x\<bar> < 2 powr (-1022) \<Longrightarrow> expo x = -1022"
  by (simp add: expo_def)

lemma abs_lt_next: "\<bar>x\<bar> < 2 powr (of_int (expo x) + 1)"
proof (cases "\<bar>x\<bar> < 2 powr (-1022)")
  case True
  have "(2::real) powr (-1022) \<le> 2 powr (-1021)" by (intro powr_mono) auto
  with True have "\<bar>x\<bar> < 2 powr (-1021)" by linarith
  with True show ?thesis by (simp add: expo_def)
next
  case False
  then show ?thesis using expo_normal(2)[of x] by simp
qed

lemma expo_mono: assumes "\<bar>x\<bar> \<le> \<bar>y\<bar>" shows "expo x \<le> expo y"
proof (cases "\<bar>x\<bar> < 2 powr (-1022)")
  case True
  then show ?thesis using expo_ge[of y] by (simp add: expo_def)
next
  case False
  then have nx: "2 powr (-1022) \<le> \<bar>x\<bar>" by simp
  then have ny: "2 powr (-1022) \<le> \<bar>y\<bar>" using assms by linarith
  have "2 powr (of_int (expo x)) \<le> \<bar>x\<bar>" using expo_normal(1)[OF nx] .
  also have "\<dots> \<le> \<bar>y\<bar>" by fact
  also have "\<dots> < 2 powr (of_int (expo y) + 1)" using expo_normal(2)[OF ny] .
  finally have "of_int (expo x) < (of_int (expo y) + 1 :: real)" by simp
  then show ?thesis by linarith
qed

lemma rnd_err: "\<bar>rnd x - x\<bar> \<le> ulp x / 2"
proof -
  have "\<bar>of_int (rne (x / ulp x)) - x / ulp x\<bar> \<le> 1/2" by (rule rne_err)
  then have "\<bar>of_int (rne (x / ulp x)) - x / ulp x\<bar> * ulp x \<le> 1/2 * ulp x"
    using ulp_pos[of x] by (intro mult_right_mono) auto
  moreover have "\<bar>of_int (rne (x / ulp x)) - x / ulp x\<bar> * ulp x = \<bar>rnd x - x\<bar>"
  proof -
    have "\<bar>of_int (rne (x / ulp x)) - x / ulp x\<bar> * ulp x
        = \<bar>(of_int (rne (x / ulp x)) - x / ulp x) * ulp x\<bar>"
      using ulp_pos[of x] by (simp add: abs_mult)
    also have "(of_int (rne (x / ulp x)) - x / ulp x) * ulp x = rnd x - x"
      using ulp_pos[of x] by (simp add: rnd_def left_diff_distrib)
    finally show ?thesis .
  qed
  ultimately show ?thesis by simp
qed

lemma rnd_nonneg: "0 \<le> x \<Longrightarrow> 0 \<le> rnd x"
proof -
  assume "0 \<le> x"
  then have "0 \<le> x / ulp x" using ulp_pos[of x] by simp
  then have "rne 0 \<le> rne (x / ulp x)" by (rule rne_mono)
  then have "0 \<le> rne (x / ulp x)" using rne_of_int[of 0] by simp
  then show ?thesis using ulp_pos[of x] by (simp add: rnd_def)
qed

lemma rnd_le_next: assumes "0 \<le> x" shows "rnd x \<le> 2 powr (of_int (expo x) + 1)"
proof -
  have "x < 2 powr (of_int (expo x) + 1)" using abs_lt_next[of x] assms by simp
  also have "\<dots> = 2 ^ 53 * ulp x" by (simp add: ulp_def powr_diff powr_add)
  finally have "x / ulp x \<le> of_int (2 ^ 53)" using ulp_pos[of x] by (simp add: field_simps)
  then have "rne (x / ulp x) \<le> rne (of_int (2 ^ 53))" by (rule rne_mono)
  then have "rne (x / ulp x) \<le> 2 ^ 53" unfolding rne_of_int .
  then have "(of_int (rne (x / ulp x)) :: real) \<le> 2 ^ 53" by (metis of_int_le_numeral_power_cancel_iff)
  then have "rnd x \<le> 2 ^ 53 * ulp x" unfolding rnd_def using ulp_pos[of x] by (intro mult_right_mono) auto
  also have "\<dots> = 2 powr (of_int (expo x) + 1)" by (simp add: ulp_def powr_diff powr_add)
  finally show ?thesis .
qed

lemma rnd_ge_binade: assumes "2 powr (-1022) \<le> x" shows "2 powr (of_int (expo x)) \<le> rnd x"
proof -
  have xp: "0 < x" using assms by (smt (verit) powr_gt_zero)
  have "2 powr (of_int (expo x)) \<le> x" using expo_normal(1)[of x] assms xp by simp
  moreover have "2 powr (of_int (expo x)) = 2 ^ 52 * ulp x" by (simp add: ulp_def powr_diff)
  ultimately have "of_int (2 ^ 52) \<le> x / ulp x" using ulp_pos[of x] by (simp add: field_simps)
  then have "rne (of_int (2 ^ 52)) \<le> rne (x / ulp x)" by (rule rne_mono)
  then have "2 ^ 52 \<le> rne (x / ulp x)" unfolding rne_of_int .
  then have "(2 ^ 52 :: real) \<le> of_int (rne (x / ulp x))" by (metis numeral_power_le_of_int_cancel_iff)
  then have "2 ^ 52 * ulp x \<le> rnd x" unfolding rnd_def using ulp_pos[of x] by (intro mult_right_mono) auto
  then show ?thesis using \<open>2 powr (of_int (expo x)) = 2 ^ 52 * ulp x\<close> by simp
qed

lemma rnd_mono_pos: assumes "0 \<le> x" "x \<le> y" shows "rnd x \<le> rnd y"
proof (cases "expo x = expo y")
  case True
  then have u: "ulp x = ulp y" by (simp add: ulp_def)
  have "x / ulp y \<le> y / ulp y" using assms ulp_pos[of y] by (simp add: divide_right_mono)
  then have "rne (x / ulp y) \<le> rne (y / ulp y)" by (rule rne_mono)
  then have "(of_int (rne (x / ulp y)) :: real) \<le> of_int (rne (y / ulp y))" by simp
  then show ?thesis unfolding rnd_def u using ulp_pos[of y] by (intro mult_right_mono) auto
next
  case False
  have "expo x \<le> expo y" using assms by (intro expo_mono) auto
  with False have lt: "expo x + 1 \<le> expo y" by linarith
  then have "- 1022 < expo y" using expo_ge[of x] by linarith
  then have ny: "2 powr (-1022) \<le> y" using assms by (auto simp: expo_def split: if_splits)
  have "rnd x \<le> 2 powr (of_int (expo x) + 1)" using rnd_le_next[OF assms(1)] .
  also have "\<dots> \<le> 2 powr (of_int (expo y))" using lt by (intro powr_mono) auto
  also have "\<dots> \<le> rnd y" using rnd_ge_binade[OF ny] .
  finally show ?thesis .
qed

lemma rnd_mono: assumes "x \<le> y" shows "rnd x \<le> rnd y"
proof -
  consider "0 \<le> x" | "x < 0" "0 \<le> y" | "y < 0" by linarith
  then show ?thesis
  proof cases
    case 1
    then show ?thesis using assms by (rule rnd_mono_pos)
  next
    case 2
    have "rnd (- x) \<ge> 0" using 2 by (intro rnd_nonneg) auto
    then have "rnd x \<le> 0" by (simp add: rnd_minus)
    moreover have "0 \<le> rnd y" using 2 by (intro rnd_nonneg)
    ultimately show ?thesis by linarith
  next
    case 3
    have "rnd (- y) \<le> rnd (- x)" using 3 assms by (intro rnd_mono_pos) auto
    then show ?thesis by (simp add: rnd_minus)
  qed
qed

subsection \<open>Numbers that rounding leaves unchanged\<close>

lemma rnd_exact:
  assumes x: "x = of_int m * 2 powr (of_int e)" and m: "\<bar>m\<bar> < 2 ^ 53" and e: "-1074 \<le> e"
  shows "rnd x = x"
proof -
  have le: "expo x \<le> e + 52"
  proof (cases "\<bar>x\<bar> < 2 powr (-1022)")
    case True
    then show ?thesis using e by (simp add: expo_def)
  next
    case False
    then have n: "2 powr (-1022) \<le> \<bar>x\<bar>" by simp
    have "\<bar>of_int m :: real\<bar> < 2 ^ 53" using m by (metis of_int_abs of_int_less_numeral_power_cancel_iff)
    moreover have "\<bar>x\<bar> = \<bar>of_int m\<bar> * 2 powr (of_int e)" by (simp add: x abs_mult)
    ultimately have "\<bar>x\<bar> < 2 ^ 53 * 2 powr (of_int e)"
      by (simp add: mult_strict_right_mono)
    also have "\<dots> = 2 powr (of_int e + 53)" by (simp add: powr_add)
    finally have "2 powr (of_int (expo x)) < (2::real) powr (of_int e + 53)"
      using expo_normal(1)[OF n] by linarith
    then have "of_int (expo x) < (of_int e + 53 :: real)" by simp
    then show ?thesis by linarith
  qed
  define k where "k = nat (e + 52 - expo x)"
  have k: "of_int e - (of_int (expo x) - 52) = (of_nat k :: real)"
    using le by (simp add: k_def)
  have "x / ulp x = of_int m * 2 powr (of_int e - (of_int (expo x) - 52))"
    by (simp add: x ulp_def powr_diff)
  also have "\<dots> = of_int m * 2 ^ k" unfolding k by (simp add: powr_realpow)
  also have "\<dots> = of_int (m * 2 ^ k)" by simp
  finally have q: "x / ulp x = of_int (m * 2 ^ k)" .
  have "rnd x = of_int (m * 2 ^ k) * ulp x" unfolding rnd_def q rne_of_int ..
  also have "\<dots> = x / ulp x * ulp x" unfolding q ..
  also have "\<dots> = x" using ulp_pos[of x] by simp
  finally show ?thesis .
qed

lemma rnd_of_int: "\<bar>m\<bar> < 2 ^ 53 \<Longrightarrow> rnd (of_int m) = of_int m"
  using rnd_exact[of "of_int m" m 0] by simp

lemma rnd_numeral [simp]: "numeral n < (2 ^ 53 :: int) \<Longrightarrow> rnd (numeral n) = numeral n"
  using rnd_of_int[of "numeral n"] by simp

lemma rnd_1 [simp]: "rnd 1 = 1"
  using rnd_of_int[of 1] by simp

lemma rnd_frac:
  assumes "\<bar>m\<bar> < 2 ^ 53" "k \<le> 1074"
  shows "rnd (of_int m / 2 ^ k) = of_int m / 2 ^ k"
proof -
  have "(of_int m / 2 ^ k :: real) = of_int m * 2 powr (of_int (- int k))"
    by (simp add: powr_minus powr_realpow field_simps)
  then show ?thesis using rnd_exact[of "of_int m / 2 ^ k" m "- int k"] assms by simp
qed

lemma rnd_numeral_frac:
  "numeral n < (2 ^ 53 :: int) \<Longrightarrow> k \<le> 1074 \<Longrightarrow> rnd (numeral n / 2 ^ k) = numeral n / 2 ^ k"
  using rnd_frac[of "numeral n" k] by simp

lemma rnd_one_frac: "k \<le> 1074 \<Longrightarrow> rnd (1 / 2 ^ k) = 1 / 2 ^ k"
  using rnd_frac[of 1 k] by simp

lemma rnd_pow2: "rnd (2 ^ k) = 2 ^ k"
  using rnd_exact[of "2 ^ k" 1 "int k"] by (simp add: powr_realpow)

lemma rnd_le: "x \<le> d \<Longrightarrow> rnd d = d \<Longrightarrow> rnd x \<le> d"
  using rnd_mono[of x d] by simp

lemma rnd_ge: "d \<le> x \<Longrightarrow> rnd d = d \<Longrightarrow> d \<le> rnd x"
  using rnd_mono[of d x] by simp

lemma rnd_abs_le: assumes "\<bar>x\<bar> \<le> d" "rnd d = d" shows "\<bar>rnd x\<bar> \<le> d"
proof -
  have "rnd x \<le> d" using assms by (intro rnd_le) auto
  moreover have "rnd (- x) \<le> d" using assms by (intro rnd_le) auto
  ultimately show ?thesis by (simp add: rnd_minus abs_le_iff)
qed

lemma ofl_Fin: assumes "\<bar>x\<bar> \<le> 2 ^ 1023" shows "ofl x = Fin (rnd x)"
proof -
  have "\<bar>rnd x\<bar> \<le> 2 ^ 1023" using assms by (rule rnd_abs_le) (rule rnd_pow2)
  moreover have "(2::real) ^ 1023 < 2 ^ 1024" by simp
  ultimately have "\<bar>rnd x\<bar> < 2 ^ 1024" by linarith
  then show ?thesis by (simp add: ofl_def Let_def abs_less_iff)
qed


subsection \<open>Spins too small to be seen\<close>

lemma rne_evalI: assumes "\<bar>q - of_int m\<bar> < 1/2" shows "rne q = m"
proof -
  have "\<bar>of_int (rne q) - q\<bar> \<le> 1/2" by (rule rne_err)
  with assms have "\<bar>(of_int (rne q) :: real) - of_int m\<bar> < 1" by linarith
  then have "\<bar>of_int (rne q - m) :: real\<bar> < 1" by simp
  then have "\<bar>rne q - m\<bar> < 1" by (metis of_int_abs of_int_less_1_iff)
  then show ?thesis by linarith
qed

lemma rnd_near:
  assumes d: "d = of_int m * 2 powr (of_int e - 52)" and e: "expo x = e"
    and n: "\<bar>x - d\<bar> < 2 powr (of_int e - 52) / 2"
  shows "rnd x = d"
proof -
  have u: "ulp x = 2 powr (of_int e - 52)" by (simp add: ulp_def e)
  have "\<bar>x / ulp x - of_int m\<bar> = \<bar>(x - d) / ulp x\<bar>"
    by (simp add: u d diff_divide_distrib)
  also have "\<dots> = \<bar>x - d\<bar> / ulp x" using ulp_pos[of x] by simp
  also have "\<dots> < 1/2" using n ulp_pos[of x] by (simp add: u field_simps)
  finally have "rne (x / ulp x) = m" by (rule rne_evalI)
  then show ?thesis by (simp add: rnd_def u d)
qed

lemma expo_0: "1 \<le> \<bar>x\<bar> \<Longrightarrow> \<bar>x\<bar> < 2 \<Longrightarrow> expo x = 0"
  by (rule expo_eqI) simp_all

lemma expo_m1: "1/2 \<le> \<bar>x\<bar> \<Longrightarrow> \<bar>x\<bar> < 1 \<Longrightarrow> expo x = -1"
  by (rule expo_eqI) (simp_all add: powr_minus)

lemma expo_3: "8 \<le> \<bar>x\<bar> \<Longrightarrow> \<bar>x\<bar> < 16 \<Longrightarrow> expo x = 3"
  by (rule expo_eqI) (simp_all add: powr_add)

lemma rnd_above_1: assumes "0 \<le> h" "h < 1 / 2 ^ 53" shows "rnd (1 + h) = 1"
proof (rule rnd_near[where m = "2 ^ 52" and e = 0])
  show "(1::real) = of_int (2 ^ 52) * 2 powr (of_int 0 - 52)" by (simp add: powr_minus)
  show "expo (1 + h) = 0" using assms by (intro expo_0) auto
  have "(2::real) powr (of_int 0 - 52) / 2 = 1 / 2 ^ 53" by (simp add: powr_minus)
  then show "\<bar>1 + h - 1\<bar> < 2 powr (of_int 0 - 52) / 2" using assms by simp
qed

lemma rnd_below_1: assumes "0 < h" "h < 1 / 2 ^ 54" shows "rnd (1 - h) = 1"
proof (rule rnd_near[where m = "2 ^ 53" and e = "-1"])
  show "(1::real) = of_int (2 ^ 53) * 2 powr (of_int (-1) - 52)" by (simp add: powr_minus)
  show "expo (1 - h) = -1" using assms by (intro expo_m1) auto
  have "(2::real) powr (of_int (-1) - 52) / 2 = 1 / 2 ^ 54" by (simp add: powr_minus)
  then show "\<bar>1 - h - 1\<bar> < 2 powr (of_int (-1) - 52) / 2" using assms by simp
qed

lemma rnd_above_9: assumes "0 \<le> h" "h < 1 / 2 ^ 50" shows "rnd (h + 9) = 9"
proof (rule rnd_near[where m = "9 * 2 ^ 49" and e = 3])
  show "(9::real) = of_int (9 * 2 ^ 49) * 2 powr (of_int 3 - 52)" by (simp add: powr_minus)
  show "expo (h + 9) = 3" using assms by (intro expo_3) auto
  have "(2::real) powr (of_int 3 - 52) / 2 = 1 / 2 ^ 50" by (simp add: powr_minus)
  then show "\<bar>h + 9 - 9\<bar> < 2 powr (of_int 3 - 52) / 2" using assms by simp
qed

lemma c998_bounds: "9/10 \<le> rnd (998 / 1000)" "rnd (998 / 1000) \<le> 1"
proof -
  have "rnd (9/10) \<le> rnd (998/1000)" by (rule rnd_mono) simp
  moreover have "rnd (1/2) \<le> rnd (9/10)" by (rule rnd_mono) simp
  show "rnd (998 / 1000) \<le> 1" by (rule rnd_le) simp_all
  have "rnd (15/16) \<le> rnd (998/1000)" by (rule rnd_mono) simp
  moreover have "rnd (15/16) = 15/16" using rnd_frac[of 15 4] by simp
  ultimately show "9/10 \<le> rnd (998 / 1000)" by simp
qed


lemma ofl_small: "\<bar>x\<bar> \<le> 16 \<Longrightarrow> ofl x = Fin (rnd x)"
  by (rule ofl_Fin) (simp add: order_trans[where y = 16])

lemma isco_radius_steps:
  assumes "py_max (py_min spin' (Fin (rnd (998 / 1000)))) (Fin (- rnd (998 / 1000))) = a"
    and "py_pow L (fsub (Fin 1) (fmul a a)) third = Inr t"
    and "py_pow L (fadd (Fin 1) a) third = Inr p"
    and "py_pow L (fsub (Fin 1) a) third = Inr q"
    and "z1 = fadd (Fin 1) (fmul t (fadd p q))"
    and "py_sqrt (fadd (fmul (fmul (Fin 3) a) a) (fmul z1 z1)) = Inr z2"
    and "py_sqrt (fmul (fsub (Fin 3) z1) (fadd (fadd (Fin 3) z1) (fmul (Fin 2) z2))) = Inr s"
  shows "isco_radius L spin' =
    Inr (fsub (fadd (Fin 3) z2) (fmul (if fge a (Fin 0) then Fin 1 else Fin (- 1)) s))"
  using assms unfolding isco_radius_def Let_def bind_exn_def by simp

lemma clamp_id:
  assumes "\<bar>a\<bar> \<le> rnd (998 / 1000)"
  shows "py_max (py_min (Fin a) (Fin (rnd (998 / 1000)))) (Fin (- rnd (998 / 1000))) = Fin a"
  using assms by (auto simp: py_max_def py_min_def)

lemma tiny_spin:
  assumes a: "\<bar>a\<bar> \<le> 1 / 2 ^ 60"
  shows "isco_radius L (Fin a) = Inr (Fin 6)"
proof -
  have a16: "\<bar>a\<bar> \<le> 16" "\<bar>a\<bar> < 1 / 2 ^ 54" "\<bar>a\<bar> \<le> 1" using a by simp_all
  define v where "v = rnd (a * a)"
  have "0 \<le> a * a" by simp
  then have v0: "0 \<le> v" unfolding v_def by (rule rnd_nonneg)
  have "\<bar>a\<bar> * \<bar>a\<bar> \<le> 1 / 2 ^ 60 * (1 / 2 ^ 60)" using a by (intro mult_mono) auto
  then have "a * a \<le> 1 / 2 ^ 120" by (simp add: abs_mult[symmetric])
  then have v1: "v \<le> 1 / 2 ^ 120" unfolding v_def by (rule rnd_le) (rule rnd_one_frac, simp)
  have aa16: "\<bar>a * a\<bar> \<le> 16" using \<open>a * a \<le> 1 / 2 ^ 120\<close> by simp
  have m1: "fmul (Fin a) (Fin a) = Fin v" using ofl_small[OF aa16] by (simp add: v_def)
  have rv: "rnd (1 - v) = 1"
  proof (cases "v = 0")
    case True then show ?thesis by simp
  next
    case False
    with v0 have "0 < v" by simp
    moreover have "v < 1 / 2 ^ 54" using v1 by (rule order_le_less_trans) simp
    ultimately show ?thesis by (rule rnd_below_1)
  qed
  have s1: "fsub (Fin 1) (Fin v) = Fin 1"
    using ofl_small[of "1 - v"] v0 v1 rv by (simp add: fsub_def)
  have rp: "rnd (1 + \<bar>a\<bar>) = 1" by (rule rnd_above_1) (use a16 in auto)
  have rm: "rnd (1 - \<bar>a\<bar>) = 1"
  proof (cases "a = 0")
    case True then show ?thesis by simp
  next
    case False
    then show ?thesis by (intro rnd_below_1) (use a16 in auto)
  qed
  have r_plus: "rnd (1 + a) = 1" using rp rm by (cases "0 \<le> a") auto
  have r_minus: "rnd (1 - a) = 1" using rp rm by (cases "0 \<le> a") auto
  have s2: "fadd (Fin 1) (Fin a) = Fin 1"
    using ofl_small[of "1 + a"] a16 r_plus by simp
  have s3: "fsub (Fin 1) (Fin a) = Fin 1"
    using ofl_small[of "1 - a"] a16 r_minus by (simp add: fsub_def)
  have pw: "py_pow L (Fin 1) third = Inr (Fin 1)"
    by (simp add: checked_pow_def)
  have z1: "fadd (Fin 1) (fmul (Fin 1) (fadd (Fin 1) (Fin 1))) = Fin 3"
    by (simp add: ofl_small)
  define w where "w = rnd (rnd (3 * a) * a)"
  have t3: "\<bar>rnd (3 * a)\<bar> \<le> 1 / 2 ^ 58"
    by (rule rnd_abs_le) (use a in simp, rule rnd_one_frac, simp)
  have sg: "0 \<le> rnd (3 * a) * a"
  proof (cases "0 \<le> a")
    case True
    then have "0 \<le> rnd (3 * a)" by (intro rnd_nonneg) simp
    with True show ?thesis by simp
  next
    case False
    then have "0 \<le> rnd (3 * (- a))" by (intro rnd_nonneg) simp
    then have "rnd (3 * a) \<le> 0" using rnd_minus[of "3 * a"] by simp
    with False show ?thesis by (simp add: mult_nonpos_nonpos)
  qed
  have "\<bar>rnd (3 * a)\<bar> * \<bar>a\<bar> \<le> 1 / 2 ^ 58 * (1 / 2 ^ 60)" using t3 a by (intro mult_mono) auto
  then have pb: "rnd (3 * a) * a \<le> 1 / 2 ^ 118" using sg by (simp add: abs_mult[symmetric])
  have w0: "0 \<le> w" unfolding w_def using sg by (rule rnd_nonneg)
  have w1: "w \<le> 1 / 2 ^ 118" unfolding w_def using pb by (rule rnd_le) (rule rnd_one_frac, simp)
  have m3: "fmul (fmul (Fin 3) (Fin a)) (Fin a) = Fin w"
  proof -
    have "fmul (Fin 3) (Fin a) = Fin (rnd (3 * a))" using a16 by (simp add: ofl_small)
    moreover have "\<bar>rnd (3 * a) * a\<bar> \<le> 16" using sg pb by simp
    ultimately show ?thesis by (simp add: ofl_small w_def)
  qed
  have r9: "rnd (w + 9) = 9"
    by (rule rnd_above_9) (use w0 w1 in auto)
  have s9: "sqrt 9 = 3" using real_sqrt_abs[of 3] by simp
  have z2: "py_sqrt (fadd (Fin w) (fmul (Fin 3) (Fin 3))) = Inr (Fin 3)"
  proof -
    have "fmul (Fin 3) (Fin 3) = Fin 9" by (simp add: ofl_small)
    moreover have "fadd (Fin w) (Fin 9) = Fin 9" using w0 w1 r9 by (simp add: ofl_small)
    ultimately show ?thesis by (simp add: s9)
  qed
  have sq: "py_sqrt (fmul (fsub (Fin 3) (Fin 3)) (fadd (fadd (Fin 3) (Fin 3)) (fmul (Fin 2) (Fin 3))))
      = Inr (Fin 0)"
    by (simp add: fsub_def ofl_small rnd_0)
  have fin: "fsub (fadd (Fin 3) (Fin 3)) (fmul (if fge (Fin a) (Fin 0) then Fin 1 else Fin (- 1)) (Fin 0))
      = Fin 6"
    by (simp add: fsub_def ofl_small rnd_0)
  have cl: "py_max (py_min (Fin a) (Fin (rnd (998 / 1000)))) (Fin (- rnd (998 / 1000))) = Fin a"
  proof (rule clamp_id)
    have "\<bar>a\<bar> \<le> 9 / 10" using a by (rule order_trans) simp
    then show "\<bar>a\<bar> \<le> rnd (998 / 1000)" using c998_bounds(1) by linarith
  qed
  have "isco_radius L (Fin a) =
    Inr (fsub (fadd (Fin 3) (Fin 3)) (fmul (if fge (Fin a) (Fin 0) then Fin 1 else Fin (- 1)) (Fin 0)))"
    by (rule isco_radius_steps[OF cl, where t = "Fin 1" and p = "Fin 1" and q = "Fin 1" and ?z1.0 = "Fin 3"])
      (simp_all only: m1 s1 s2 s3 pw z1 m3 z2 sq)
  then show ?thesis unfolding fin .
qed

subsection \<open>The cube root and the rounded exponent\<close>

lemma exp_near_1: fixes y :: real assumes "\<bar>y\<bar> \<le> 1" shows "\<bar>exp y - 1\<bar> \<le> 2 * \<bar>y\<bar>"
proof (cases "0 \<le> y")
  case True
  then have "exp y \<le> 1 + y + y\<^sup>2" using assms by (intro exp_bound) auto
  moreover have "y\<^sup>2 \<le> y" using True assms by (simp add: power2_eq_square mult_left_le)
  moreover have "1 \<le> exp y" using True by simp
  ultimately show ?thesis using True by simp
next
  case False
  then have "exp y \<le> 1" by simp
  moreover have "1 + y \<le> exp y" by (rule exp_ge_add_one_self)
  ultimately show ?thesis using False by linarith
qed

lemma expo_third: "expo (1/3) = -2"
  by (rule expo_eqI) (simp_all add: powr_minus)

lemma third_close: "\<bar>third - 1/3\<bar> \<le> 1 / 2 ^ 55"
proof -
  have "ulp (1/3) = 1 / 2 ^ 54" by (simp add: ulp_def expo_third powr_minus)
  then show ?thesis using rnd_err[of "1/3"] by (simp add: third_def)
qed

lemma powr_third_root:
  assumes "1/512 \<le> x" "x \<le> 2"
  shows "\<bar>x powr third - root 3 x\<bar> \<le> 1 / 2 ^ 44"
proof -
  have xp: "0 < x" using assms by simp
  define d where "d = third - 1/3"
  have d: "\<bar>d\<bar> \<le> 1 / 2 ^ 55" unfolding d_def by (rule third_close)
  have r: "root 3 x = x powr (1/3)" using root_powr_inverse[of 3 x] xp by simp
  have lnu: "ln x \<le> 1" using ln_le_minus_one[OF xp] assms by simp
  have "ln (1 / x) \<le> 1 / x - 1" using xp by (intro ln_le_minus_one) simp
  moreover have "1 / x \<le> 512" using assms xp by (simp add: field_simps)
  ultimately have lnl: "- 511 \<le> ln x" using xp by (simp add: ln_div)
  have "\<bar>ln x\<bar> \<le> 512" using lnu lnl by simp
  then have "\<bar>d\<bar> * \<bar>ln x\<bar> \<le> 1 / 2 ^ 55 * 512" using d by (intro mult_mono) auto
  then have dl: "\<bar>d * ln x\<bar> \<le> 1 / 2 ^ 46" by (simp add: abs_mult)
  then have "\<bar>d * ln x\<bar> \<le> 1" by (rule order_trans) simp
  then have "\<bar>exp (d * ln x) - 1\<bar> \<le> 2 * \<bar>d * ln x\<bar>" by (rule exp_near_1)
  then have e: "\<bar>x powr d - 1\<bar> \<le> 1 / 2 ^ 45" using dl xp by (simp add: powr_def)
  have "x powr (1/3) \<le> 2 powr (1/3)" using assms xp by (intro powr_mono2) auto
  also have "\<dots> \<le> 2 powr 1" by (intro powr_mono) auto
  finally have r2: "x powr (1/3) \<le> 2" by simp
  have r0: "0 \<le> x powr (1/3)" by simp
  have "x powr third = x powr (1/3) * x powr d" by (simp add: d_def powr_add[symmetric])
  then have "x powr third - root 3 x = x powr (1/3) * (x powr d - 1)"
    by (simp add: r algebra_simps)
  then have "\<bar>x powr third - root 3 x\<bar> = x powr (1/3) * \<bar>x powr d - 1\<bar>"
    by (simp add: abs_mult)
  also have "\<dots> \<le> 2 * (1 / 2 ^ 45)" using r2 r0 e by (intro mult_mono) auto
  finally show ?thesis by simp
qed

subsection \<open>Enclosures of the float operations\<close>

lemma enclE:
  assumes "encl lo hi v"
  obtains r where "v = Fin r" "of_int lo / 2 ^ 30 \<le> r" "r \<le> of_int hi / 2 ^ 30"
  using assms by (cases v) (auto simp: encl_def)

lemma encl_Fin: "encl lo hi (Fin r) \<longleftrightarrow> of_int lo / 2 ^ 30 \<le> r \<and> r \<le> of_int hi / 2 ^ 30"
  by (simp add: encl_def)

lemma encl_weaken: "encl l1 u1 v \<Longrightarrow> l \<le> l1 \<Longrightarrow> u1 \<le> u \<Longrightarrow> encl l u v"
proof (erule enclE)
  fix r assume v: "v = Fin r" and b: "of_int l1 / 2 ^ 30 \<le> r" "r \<le> of_int u1 / 2 ^ 30"
    and "l \<le> l1" "u1 \<le> u"
  then have "(of_int l :: real) / 2 ^ 30 \<le> of_int l1 / 2 ^ 30" "(of_int u1 :: real) / 2 ^ 30 \<le> of_int u / 2 ^ 30"
    by (simp_all add: divide_right_mono)
  with b show ?thesis by (simp add: v encl_Fin)
qed

lemma unit_frac: "\<bar>m\<bar> < 2 ^ 53 \<Longrightarrow> rnd (of_int m / 2 ^ 30) = of_int m / 2 ^ 30"
  by (rule rnd_frac) simp_all

lemma encl_ofl:
  assumes "of_int lo / 2 ^ 30 \<le> x" "x \<le> of_int hi / 2 ^ 30" "\<bar>lo\<bar> < 2 ^ 53" "\<bar>hi\<bar> < 2 ^ 53"
  shows "encl lo hi (ofl x)"
proof -
  have l: "of_int lo / 2 ^ 30 \<le> rnd x" using assms(1) by (rule rnd_ge) (rule unit_frac[OF assms(3)])
  have u: "rnd x \<le> of_int hi / 2 ^ 30" using assms(2) by (rule rnd_le) (rule unit_frac[OF assms(4)])
  have "\<bar>of_int lo :: real\<bar> \<le> 2 ^ 53" "\<bar>of_int hi :: real\<bar> \<le> 2 ^ 53"
    using assms(3,4) by (metis of_int_abs of_int_le_numeral_power_cancel_iff less_imp_le)+
  then have "\<bar>of_int lo / 2 ^ 30 :: real\<bar> \<le> 2 ^ 53" "\<bar>of_int hi / 2 ^ 30 :: real\<bar> \<le> 2 ^ 53"
    by (simp_all add: field_simps) 
  then have "\<bar>x\<bar> \<le> 2 ^ 53" using assms(1,2) by linarith
  then have "\<bar>x\<bar> \<le> 2 ^ 1023" by (rule order_trans) simp
  then have "ofl x = Fin (rnd x)" by (rule ofl_Fin)
  with l u show ?thesis by (simp add: encl_Fin)
qed

lemma encl_lit:
  "of_int lo / 2 ^ 30 \<le> x \<Longrightarrow> x \<le> of_int hi / 2 ^ 30 \<Longrightarrow> \<bar>lo\<bar> < 2 ^ 53 \<Longrightarrow> \<bar>hi\<bar> < 2 ^ 53
    \<Longrightarrow> encl lo hi (Fin (rnd x))"
  using rnd_ge[OF _ unit_frac, of lo x] rnd_le[OF _ unit_frac, of x hi] by (simp add: encl_Fin)

lemma encl_add:
  assumes "encl l1 u1 x" "encl l2 u2 y" "l \<le> l1 + l2" "u1 + u2 \<le> u"
    "\<bar>l\<bar> < 2 ^ 53" "\<bar>u\<bar> < 2 ^ 53"
  shows "encl l u (fadd x y)"
proof -
  from assms(1) obtain r1 where x: "x = Fin r1" and b1: "of_int l1 / 2 ^ 30 \<le> r1" "r1 \<le> of_int u1 / 2 ^ 30"
    by (rule enclE)
  from assms(2) obtain r2 where y: "y = Fin r2" and b2: "of_int l2 / 2 ^ 30 \<le> r2" "r2 \<le> of_int u2 / 2 ^ 30"
    by (rule enclE)
  have "(of_int l :: real) \<le> of_int (l1 + l2)" "(of_int (u1 + u2) :: real) \<le> of_int u"
    using assms(3,4) by (simp_all only: of_int_le_iff)
  then have "(of_int l :: real) / 2 ^ 30 \<le> (of_int l1 + of_int l2) / 2 ^ 30"
    "((of_int u1 + of_int u2) :: real) / 2 ^ 30 \<le> of_int u / 2 ^ 30"
    by (simp_all add: divide_right_mono)
  then have "of_int l / 2 ^ 30 \<le> r1 + r2" "r1 + r2 \<le> of_int u / 2 ^ 30"
    using b1 b2 by (simp_all add: add_divide_distrib)
  then show ?thesis unfolding x y fadd.simps using assms(5,6) by (rule encl_ofl)
qed

lemma encl_neg: "encl l u x \<Longrightarrow> encl (- u) (- l) (fneg x)"
  by (erule enclE) (simp add: encl_Fin)

lemma encl_sub:
  assumes "encl l1 u1 x" "encl l2 u2 y" "l \<le> l1 - u2" "u1 - l2 \<le> u"
    "\<bar>l\<bar> < 2 ^ 53" "\<bar>u\<bar> < 2 ^ 53"
  shows "encl l u (fsub x y)"
  unfolding fsub_def
  by (rule encl_add[OF assms(1) encl_neg[OF assms(2)]]) (use assms in simp_all)

lemma encl_mul:
  assumes "encl l1 u1 x" "encl l2 u2 y" "0 \<le> l1" "0 \<le> l2"
    "l * 2 ^ 30 \<le> l1 * l2" "u1 * u2 \<le> u * 2 ^ 30" "\<bar>l\<bar> < 2 ^ 53" "\<bar>u\<bar> < 2 ^ 53"
  shows "encl l u (fmul x y)"
proof -
  from assms(1) obtain r1 where x: "x = Fin r1" and b1: "of_int l1 / 2 ^ 30 \<le> r1" "r1 \<le> of_int u1 / 2 ^ 30"
    by (rule enclE)
  from assms(2) obtain r2 where y: "y = Fin r2" and b2: "of_int l2 / 2 ^ 30 \<le> r2" "r2 \<le> of_int u2 / 2 ^ 30"
    by (rule enclE)
  have n1: "(0::real) \<le> of_int l1 / 2 ^ 30" "(0::real) \<le> of_int l2 / 2 ^ 30"
    using assms(3,4) by simp_all
  have r0: "0 \<le> r1" "0 \<le> r2" using n1 b1 b2 by linarith+
  have "(of_int (l * 2 ^ 30) :: real) \<le> of_int (l1 * l2)" "(of_int (u1 * u2) :: real) \<le> of_int (u * 2 ^ 30)"
    using assms(5,6) by (simp_all only: of_int_le_iff)
  then have c: "(of_int l :: real) / 2 ^ 30 \<le> (of_int l1 / 2 ^ 30) * (of_int l2 / 2 ^ 30)"
    "(of_int u1 / 2 ^ 30) * (of_int u2 / 2 ^ 30) \<le> (of_int u :: real) / 2 ^ 30"
    by (simp_all add: field_simps)
  have "(of_int l1 / 2 ^ 30) * (of_int l2 / 2 ^ 30) \<le> r1 * r2"
    using b1 b2 n1 by (intro mult_mono) auto
  moreover have "r1 * r2 \<le> (of_int u1 / 2 ^ 30) * (of_int u2 / 2 ^ 30)"
    using b1 b2 r0 by (intro mult_mono) auto
  ultimately have "of_int l / 2 ^ 30 \<le> r1 * r2" "r1 * r2 \<le> of_int u / 2 ^ 30"
    using c by linarith+
  then show ?thesis unfolding x y fmul.simps using assms(7,8) by (rule encl_ofl)
qed

lemma encl_abs:
  assumes "encl l1 u1 x" "- u \<le> l1" "u1 \<le> u"
  shows "encl 0 u (fabs x)"
proof -
  from assms(1) obtain r1 where x: "x = Fin r1" and b1: "of_int l1 / 2 ^ 30 \<le> r1" "r1 \<le> of_int u1 / 2 ^ 30"
    by (rule enclE)
  have "(of_int (- u) :: real) \<le> of_int l1" "(of_int u1 :: real) \<le> of_int u"
    using assms(2,3) by (simp_all only: of_int_le_iff)
  then have "- (of_int u / 2 ^ 30) \<le> (of_int l1 :: real) / 2 ^ 30" "(of_int u1 :: real) / 2 ^ 30 \<le> of_int u / 2 ^ 30"
    by (simp_all add: divide_right_mono)
  then have "\<bar>r1\<bar> \<le> of_int u / 2 ^ 30" using b1 by linarith
  then show ?thesis by (simp add: x encl_Fin)
qed

lemma encl_div:
  assumes "encl l1 u1 x" "encl l2 u2 y" "0 \<le> l1" "0 < l2"
    "l * u2 \<le> l1 * 2 ^ 30" "u1 * 2 ^ 30 \<le> u * l2" "0 \<le> l" "\<bar>l\<bar> < 2 ^ 53" "\<bar>u\<bar> < 2 ^ 53"
  shows "\<exists>v. fdiv x y = Inr v \<and> encl l u v"
proof -
  from assms(1) obtain r1 where x: "x = Fin r1" and b1: "of_int l1 / 2 ^ 30 \<le> r1" "r1 \<le> of_int u1 / 2 ^ 30"
    by (rule enclE)
  from assms(2) obtain r2 where y: "y = Fin r2" and b2: "of_int l2 / 2 ^ 30 \<le> r2" "r2 \<le> of_int u2 / 2 ^ 30"
    by (rule enclE)
  have n1: "(0::real) \<le> of_int l1 / 2 ^ 30" "(0::real) < of_int l2 / 2 ^ 30"
    using assms(3,4) by simp_all
  have r0: "0 \<le> r1" "0 < r2" using n1 b1 b2 by linarith+
  have u2: "(0::real) < of_int u2" "(0::real) < of_int l2" "(0::real) \<le> of_int l" "(0::real) \<le> of_int l1"
    using r0 b2 assms(3,4,7) by (simp_all add: field_simps)
  have "(of_int (l * u2) :: real) \<le> of_int (l1 * 2 ^ 30)" "(of_int (u1 * 2 ^ 30) :: real) \<le> of_int (u * l2)"
    using assms(5,6) by (simp_all only: of_int_le_iff)
  then have c: "(of_int l :: real) / 2 ^ 30 \<le> (of_int l1 / 2 ^ 30) / (of_int u2 / 2 ^ 30)"
    "(of_int u1 / 2 ^ 30) / (of_int l2 / 2 ^ 30) \<le> (of_int u :: real) / 2 ^ 30"
    using u2 by (simp_all add: field_simps)
  have "(of_int l1 / 2 ^ 30) / (of_int u2 / 2 ^ 30) \<le> r1 / r2"
    using b1 b2 n1 r0 u2 by (intro frac_le) auto
  moreover have "r1 / r2 \<le> (of_int u1 / 2 ^ 30) / (of_int l2 / 2 ^ 30)"
    using b1 b2 r0 n1 by (intro frac_le) auto
  ultimately have "of_int l / 2 ^ 30 \<le> r1 / r2" "r1 / r2 \<le> of_int u / 2 ^ 30"
    using c by linarith+
  then have "encl l u (ofl (r1 / r2))" using assms(8,9) by (rule encl_ofl)
  then show ?thesis using r0 by (simp add: x y)
qed

lemma encl_sqrt:
  assumes "encl l1 u1 x" "0 \<le> l1" "0 \<le> l" "l * l \<le> l1 * 2 ^ 30" "u1 * 2 ^ 30 \<le> u * u" "0 \<le> u"
    "\<bar>l\<bar> < 2 ^ 53" "\<bar>u\<bar> < 2 ^ 53"
  shows "\<exists>v. py_sqrt x = Inr v \<and> encl l u v"
proof -
  from assms(1) obtain r1 where x: "x = Fin r1" and b1: "of_int l1 / 2 ^ 30 \<le> r1" "r1 \<le> of_int u1 / 2 ^ 30"
    by (rule enclE)
  have n1: "(0::real) \<le> of_int l1 / 2 ^ 30" using assms(2) by simp
  have r0: "0 \<le> r1" using n1 b1 by linarith
  have "(of_int (l * l) :: real) \<le> of_int (l1 * 2 ^ 30)" "(of_int (u1 * 2 ^ 30) :: real) \<le> of_int (u * u)"
    using assms(4,5) by (simp_all only: of_int_le_iff)
  then have c: "((of_int l :: real) / 2 ^ 30)\<^sup>2 \<le> of_int l1 / 2 ^ 30"
    "of_int u1 / 2 ^ 30 \<le> ((of_int u :: real) / 2 ^ 30)\<^sup>2"
    by (simp_all add: field_simps power2_eq_square)
  have "(of_int l / 2 ^ 30)\<^sup>2 \<le> r1" using c b1 by linarith
  then have "sqrt ((of_int l / 2 ^ 30)\<^sup>2) \<le> sqrt r1" by (simp only: real_sqrt_le_iff)
  then have lo: "of_int l / 2 ^ 30 \<le> sqrt r1" using assms(3) by simp
  have "r1 \<le> (of_int u / 2 ^ 30)\<^sup>2" using c b1 by linarith
  then have "sqrt r1 \<le> sqrt ((of_int u / 2 ^ 30)\<^sup>2)" by (simp only: real_sqrt_le_iff)
  then have hi: "sqrt r1 \<le> of_int u / 2 ^ 30" using assms(6) by simp
  have "encl l u (Fin (rnd (sqrt r1)))" using lo hi assms(7,8) by (rule encl_lit)
  then show ?thesis using r0 by (simp add: x)
qed

lemma root3_ge: "0 \<le> l \<Longrightarrow> l ^ 3 \<le> x \<Longrightarrow> l \<le> root 3 x" for l :: real
  using real_root_le_iff[of 3 "l ^ 3" x] real_root_power_cancel[of 3 l] by simp

lemma root3_le: "0 \<le> u \<Longrightarrow> x \<le> u ^ 3 \<Longrightarrow> root 3 x \<le> u" for u :: real
  using real_root_le_iff[of 3 x "u ^ 3"] real_root_power_cancel[of 3 u] by simp

lemma encl_pow:
  assumes L: "libm_acc L" and x: "encl l1 u1 x" and r: "2 ^ 21 \<le> l1" "u1 \<le> 2 ^ 31"
    and l: "0 \<le> l" "(l + 1) ^ 3 \<le> l1 * 2 ^ 60" and u: "1 \<le> u" "u1 * 2 ^ 60 \<le> (u - 1) ^ 3"
    and s: "\<bar>l\<bar> < 2 ^ 53" "\<bar>u\<bar> < 2 ^ 53"
  shows "\<exists>v. py_pow L x third = Inr v \<and> encl l u v"
proof -
  from x obtain r1 where xf: "x = Fin r1" and b1: "of_int l1 / 2 ^ 30 \<le> r1" "r1 \<le> of_int u1 / 2 ^ 30"
    by (rule enclE)
  have "(of_int (2 ^ 21) :: real) \<le> of_int l1" "(of_int u1 :: real) \<le> of_int (2 ^ 31)"
    using r by (simp_all only: of_int_le_iff)
  then have "(1 / 512 :: real) \<le> of_int l1 / 2 ^ 30" "(of_int u1 :: real) / 2 ^ 30 \<le> 2"
    by (simp_all add: field_simps)
  then have rr: "1 / 512 \<le> r1" "r1 \<le> 2" using b1 by linarith+
  have "(of_int ((l + 1) ^ 3) :: real) \<le> of_int (l1 * 2 ^ 60)" "(of_int (u1 * 2 ^ 60) :: real) \<le> of_int ((u - 1) ^ 3)"
    using l u by (simp_all only: of_int_le_iff)
  then have c: "((of_int l + 1) / 2 ^ 30 :: real) ^ 3 \<le> of_int l1 / 2 ^ 30"
    "of_int u1 / 2 ^ 30 \<le> ((of_int u - 1) / 2 ^ 30 :: real) ^ 3"
    by (simp_all add: field_simps power3_eq_cube)
  have lo: "(of_int l + 1) / 2 ^ 30 \<le> root 3 r1"
    by (rule root3_ge) (use l(1) c(1) b1 in auto)
  have hi: "root 3 r1 \<le> (of_int u - 1) / 2 ^ 30"
    by (rule root3_le) (use u(1) c(2) b1 in auto)
  have pr: "\<bar>r1 powr third - root 3 r1\<bar> \<le> 1 / 2 ^ 44" using rr by (rule powr_third_root)
  have third0: "third \<noteq> 0" using third_close by auto
  have "encl l u (Fin (if r1 = 1 then 1 else lpow L r1 third))"
  proof (cases "r1 = 1")
    case True
    have "(of_int l + 1) / 2 ^ 30 \<le> (1::real)" "(1::real) \<le> (of_int u - 1) / 2 ^ 30"
      using lo hi True by simp_all
    then have "of_int l / 2 ^ 30 \<le> (1::real)" "(1::real) \<le> of_int u / 2 ^ 30"
      by (simp_all add: field_simps)
    then show ?thesis using True by (simp add: encl_Fin)
  next
    case False
    have "\<bar>lpow L r1 third - r1 powr third\<bar> \<le> 1 / 2 ^ 40"
      using L rr by (simp add: libm_acc_def)
    then have "\<bar>lpow L r1 third - root 3 r1\<bar> \<le> 1 / 2 ^ 40 + 1 / 2 ^ 44" using pr by linarith
    then have "\<bar>lpow L r1 third - root 3 r1\<bar> \<le> 1 / 2 ^ 30" by (rule order_trans) simp
    moreover have "of_int l / 2 ^ 30 + 1 / 2 ^ 30 \<le> root 3 r1"
      using lo by (simp add: add_divide_distrib)
    moreover have "root 3 r1 \<le> of_int u / 2 ^ 30 - 1 / 2 ^ 30"
      using hi by (simp add: diff_divide_distrib)
    ultimately have "of_int l / 2 ^ 30 \<le> lpow L r1 third" "lpow L r1 third \<le> of_int u / 2 ^ 30"
      by linarith+
    then show ?thesis using False by (simp add: encl_Fin)
  qed
  moreover have "py_pow L (Fin r1) third = Inr (Fin (if r1 = 1 then 1 else lpow L r1 third))"
  proof -
    have chk: "checked_pow L r1 third = Inr (Fin (if r1 = 1 then 1 else lpow L r1 third))"
    proof (cases "r1 = 1")
      case True
      then show ?thesis by (simp add: checked_pow_def)
    next
      case False
      have "\<bar>lpow L r1 third - r1 powr third\<bar> \<le> 1 / 2 ^ 40"
        using L rr by (simp add: libm_acc_def)
      moreover have "\<bar>root 3 r1\<bar> \<le> 2"
        using real_root_le_iff[of 3 r1 8] real_root_power_cancel[of 3 2] rr real_root_ge_zero[of r1 3]
        by simp
      moreover have "(1 / 2 ^ 40 :: real) \<le> 1" "(1 / 2 ^ 44 :: real) \<le> 1" by simp_all
      ultimately have "\<bar>lpow L r1 third\<bar> \<le> 4" using pr by linarith
      then have "\<bar>lpow L r1 third\<bar> < 2 ^ 1024" by (rule order_le_less_trans) simp
      then have "\<not> 2 ^ 1024 \<le> \<bar>lpow L r1 third\<bar>" by simp
      then show ?thesis using False by (simp add: checked_pow_def Let_def)
    qed
    have "0 < r1" using rr by simp
    then show ?thesis using third0 chk by simp
  qed
  ultimately show ?thesis using xf by auto
qed

subsection \<open>The photon radius through the triple-angle formula\<close>

lemma rnd_err_le4: assumes "\<bar>x\<bar> \<le> 4" shows "\<bar>rnd x - x\<bar> \<le> 1 / 2 ^ 51"
proof -
  have "expo 4 = 2" by (rule expo_eqI) (simp_all add: powr_add)
  moreover have "expo x \<le> expo 4" using assms by (intro expo_mono) simp
  ultimately have "expo x \<le> 2" by simp
  then have "ulp x \<le> 2 powr (of_int 2 - 52)" unfolding ulp_def by (intro powr_mono) auto
  also have "\<dots> = 1 / 2 ^ 50" by (simp add: powr_minus)
  finally show ?thesis using rnd_err[of x] by simp
qed

lemma cos_lipschitz: "\<bar>cos x - cos y\<bar> \<le> \<bar>x - y\<bar>" for x y :: real
proof -
  have "\<bar>cos x - cos y\<bar> = 2 * \<bar>sin ((x + y) / 2)\<bar> * \<bar>sin ((y - x) / 2)\<bar>"
    by (simp add: cos_diff_cos abs_mult)
  also have "\<dots> \<le> 2 * 1 * \<bar>(y - x) / 2\<bar>"
    by (intro mult_mono abs_sin_x_le_abs_x) auto
  finally show ?thesis by simp
qed

lemma cubic_strict_mono:
  fixes s t :: real
  assumes "1/2 \<le> s" "s < t"
  shows "4 * s ^ 3 - 3 * s < 4 * t ^ 3 - 3 * t"
proof -
  have t: "1/2 < t" using assms by linarith
  have "1/2 * (1/2) < t * t" using t by (intro mult_strict_mono) auto
  then have q1: "1/4 < t * t" by simp
  have "1/2 * (1/2) \<le> t * s" using t assms by (intro mult_mono) auto
  then have q2: "1/4 \<le> t * s" by simp
  have "1/2 * (1/2) \<le> s * s" using assms by (intro mult_mono) auto
  then have q3: "1/4 \<le> s * s" by simp
  have lin: "\<And>x y z :: real. 1/4 < x \<Longrightarrow> 1/4 \<le> y \<Longrightarrow> 1/4 \<le> z \<Longrightarrow> 0 < 4 * (x + y + z) - 3"
    by simp
  have "0 < 4 * (t * t + t * s + s * s) - 3" using q1 q2 q3 by (rule lin)
  then have "0 < (t - s) * (4 * (t * t + t * s + s * s) - 3)" using assms by simp
  also have "\<dots> = (4 * t ^ 3 - 3 * t) - (4 * s ^ 3 - 3 * s)" by (simp add: algebra_simps power3_eq_cube)
  finally show ?thesis by simp
qed

text \<open>The exact photon radius through the triple-angle formula.\<close>

lemma third_angle:
  fixes a :: real
  assumes a: "0 \<le> a" "a \<le> 1"
  defines "c \<equiv> cos (arccos (- a) / 3)"
  shows "4 * c ^ 3 - 3 * c = - a" and "1/2 \<le> c" and "c \<le> 1"
    and "cos (2 / 3 * arccos (- a)) = 2 * c\<^sup>2 - 1"
proof -
  have b: "0 \<le> arccos (- a)" "arccos (- a) \<le> pi" using a by (auto intro: arccos_lbound arccos_ubound)
  have "cos (3 * (arccos (- a) / 3)) = 4 * c ^ 3 - 3 * c" unfolding c_def by (rule cos_treble_cos)
  then show "4 * c ^ 3 - 3 * c = - a" using a by simp
  have "cos (pi / 3) \<le> cos (arccos (- a) / 3)"
    using b by (intro cos_monotone_0_pi_le) auto
  then show "1/2 \<le> c" by (simp add: c_def cos_60)
  show "c \<le> 1" by (simp add: c_def)
  have "cos (2 * (arccos (- a) / 3)) = 2 * c\<^sup>2 - 1" unfolding c_def by (rule cos_double_cos)
  then show "cos (2 / 3 * arccos (- a)) = 2 * c\<^sup>2 - 1" by (simp add: algebra_simps)
qed

lemma encl_photon_cos:
  assumes L: "libm_acc L" and a: "encl al au (Fin a)" and r: "0 < al" "au \<le> 2 ^ 30"
    and b: "2 ^ 29 \<le> cl" "cl \<le> cu" "cu \<le> 2 ^ 30"
      "4 * cl ^ 3 - 3 * cl * 2 ^ 60 < - au * 2 ^ 60" "- al * 2 ^ 60 < 4 * cu ^ 3 - 3 * cu * 2 ^ 60"
    and o: "(l + 2 ^ 30 + 1) * 2 ^ 30 \<le> 2 * cl * cl" "2 * cu * cu \<le> (u + 2 ^ 30 - 1) * 2 ^ 30"
    and s: "\<bar>l\<bar> < 2 ^ 53" "\<bar>u\<bar> < 2 ^ 53"
  shows "\<exists>ac c. py_acos L (fneg (Fin a)) = Inr ac \<and> py_cos L (fmul (ofl (2 / 3)) ac) = Inr c
    \<and> encl l u c"
proof -
  have ab: "of_int al / 2 ^ 30 \<le> a" "a \<le> of_int au / 2 ^ 30" using a by (simp_all add: encl_Fin)
  have "(0::real) < of_int al" "(of_int au :: real) \<le> of_int (2 ^ 30)" using r by (simp_all only: of_int_0_less_iff of_int_le_iff)
  then have "(0::real) < of_int al / 2 ^ 30" "(of_int au :: real) / 2 ^ 30 \<le> 1" by simp_all
  then have a01: "0 < a" "a \<le> 1" using ab by linarith+
  define A where "A = arccos (- a)"
  define c where "c = cos (A / 3)"
  have tri: "4 * c ^ 3 - 3 * c = - a" "1/2 \<le> c" "c \<le> 1" "cos (2 / 3 * A) = 2 * c\<^sup>2 - 1"
    using third_angle[of a] a01 by (simp_all add: c_def A_def)
  have A: "pi / 2 \<le> A" "A \<le> pi"
    using arccos_minus[of a] arccos_le_pi2[of a] arccos_lbound[of a] a01 by (simp_all add: A_def)
  \<comment> \<open>the bracket of the cosine\<close>
  define CL CU :: real where "CL = of_int cl / 2 ^ 30" and "CU = of_int cu / 2 ^ 30"
  have "(of_int (2 ^ 29) :: real) \<le> of_int cl" "(of_int cu :: real) \<le> of_int (2 ^ 30)"
    using b by (simp_all only: of_int_le_iff)
  then have cr: "1/2 \<le> CL" "CU \<le> 1" by (simp_all add: CL_def CU_def field_simps)
  have "(of_int (4 * cl ^ 3 - 3 * cl * 2 ^ 60) :: real) < of_int (- au * 2 ^ 60)"
    "(of_int (- al * 2 ^ 60) :: real) < of_int (4 * cu ^ 3 - 3 * cu * 2 ^ 60)"
    using b by (simp_all only: of_int_less_iff)
  then have g: "4 * CL ^ 3 - 3 * CL < - (of_int au / 2 ^ 30)" "- (of_int al / 2 ^ 30) < 4 * CU ^ 3 - 3 * CU"
    by (simp_all add: CL_def CU_def field_simps power3_eq_cube)
  have cl: "CL \<le> c"
  proof (rule ccontr)
    assume "\<not> CL \<le> c"
    then have "c < CL" by simp
    then have "4 * c ^ 3 - 3 * c < 4 * CL ^ 3 - 3 * CL" using tri(2) by (intro cubic_strict_mono)
    then show False using g(1) tri(1) ab by linarith
  qed
  have cu: "c \<le> CU"
  proof (rule ccontr)
    assume "\<not> c \<le> CU"
    then have "CU < c" by simp
    moreover have "1/2 \<le> CU" using cr b by (simp add: CL_def CU_def divide_right_mono order_trans[of "1/2" "of_int cl / 2 ^ 30"])
    ultimately have "4 * CU ^ 3 - 3 * CU < 4 * c ^ 3 - 3 * c" by (intro cubic_strict_mono)
    then show False using g(2) tri(1) ab by linarith
  qed
  have c2: "CL\<^sup>2 \<le> c\<^sup>2" "c\<^sup>2 \<le> CU\<^sup>2" using cl cu cr tri by (auto intro!: power_mono)
  \<comment> \<open>the computed angle\<close>
  define e :: real where "e = 1 / 2 ^ 40"
  have e: "0 \<le> e" "e \<le> 1 / 100" "1 / 2 ^ 54 \<le> e" "1 / 2 ^ 51 \<le> e" "1 / 2 ^ 54 * 4 \<le> e"
    "4 * e \<le> 1 / 2 ^ 30"
    by (simp_all add: e_def)
  define A' where "A' = lacos L (- a)"
  have "\<bar>A' - A\<bar> \<le> 1 / 2 ^ 40" using L a01 by (simp add: libm_acc_def A'_def A_def)
  then have A': "\<bar>A' - A\<bar> \<le> e" by (simp only: e_def)
  define t where "t = rnd (2 / 3)"
  have "expo (2/3) = -1" by (rule expo_eqI) (simp_all add: powr_minus)
  then have "ulp (2/3) = 1 / 2 ^ 53" by (simp add: ulp_def powr_minus)
  then have "\<bar>t - 2/3\<bar> \<le> 1 / 2 ^ 54" using rnd_err[of "2/3"] by (simp add: t_def)
  then have t: "\<bar>t - 2/3\<bar> \<le> e" "\<bar>t - 2/3\<bar> \<le> 1 / 2 ^ 54" using e(3) by simp_all
  have tf: "ofl (2/3) = Fin t" unfolding t_def by (rule ofl_small) simp
  have pi: "2 \<le> pi" "pi < 4" using pi_ge_two pi_less_4 by simp_all
  have A'b: "1/2 \<le> A'" "A' \<le> 17/4" using A A' pi e(1,2) by linarith+
  have tb: "1/2 \<le> t" "t \<le> 3/4" using t(1) e(1,2) by linarith+
  have p1: "1/2 * (1/2) \<le> t * A'" using tb A'b by (intro mult_mono) auto
  have p2: "t * A' \<le> 3/4 * (17/4)" using tb A'b by (intro mult_mono) auto
  have p3: "0 \<le> t * A'" "t * A' \<le> 4" using p1 p2 by simp_all
  define th where "th = rnd (t * A')"
  have thf: "fmul (Fin t) (Fin A') = Fin th"
    unfolding th_def fmul.simps by (rule ofl_small) (use p3 in simp)
  have "\<bar>th - t * A'\<bar> \<le> 1 / 2 ^ 51"
    unfolding th_def by (rule rnd_err_le4) (use p3 in simp)
  then have e1: "\<bar>th - t * A'\<bar> \<le> e" using e(4) by simp
  have d: "t * A' - 2/3 * A = t * (A' - A) + (t - 2/3) * A" by (simp add: algebra_simps)
  have "\<bar>t\<bar> * \<bar>A' - A\<bar> \<le> 1 * e" using tb A' by (intro mult_mono) auto
  then have d1: "\<bar>t * (A' - A)\<bar> \<le> e" by (simp add: abs_mult)
  have "\<bar>t - 2/3\<bar> * \<bar>A\<bar> \<le> 1 / 2 ^ 54 * 4" using t(2) A pi by (intro mult_mono) auto
  then have d2: "\<bar>(t - 2/3) * A\<bar> \<le> e" using e(5) by (simp add: abs_mult)
  have e3: "\<bar>th - 2/3 * A\<bar> \<le> 3 * e" using e1 d d1 d2 by linarith
  have thb: "0 \<le> th" "th \<le> 4"
  proof -
    have "0 \<le> rnd (t * A')" using p3 by (intro rnd_nonneg)
    then show "0 \<le> th" by (simp add: th_def)
    have "rnd (t * A') \<le> 4" by (rule rnd_le) (use p3 in simp_all)
    then show "th \<le> 4" by (simp add: th_def)
  qed
  define c' where "c' = lcos L th"
  have "\<bar>c' - cos th\<bar> \<le> 1 / 2 ^ 40" using L thb by (simp add: libm_acc_def c'_def)
  then have e4: "\<bar>c' - cos th\<bar> \<le> e" by (simp only: e_def)
  have "\<bar>cos th - cos (2/3 * A)\<bar> \<le> \<bar>th - 2/3 * A\<bar>" by (rule cos_lipschitz)
  then have "\<bar>c' - (2 * c\<^sup>2 - 1)\<bar> \<le> 4 * e" using e3 e4 tri(4) by linarith
  then have e6: "\<bar>c' - (2 * c\<^sup>2 - 1)\<bar> \<le> 1 / 2 ^ 30" using e(6) by linarith
  have "(of_int ((l + 2 ^ 30 + 1) * 2 ^ 30) :: real) \<le> of_int (2 * cl * cl)"
    "(of_int (2 * cu * cu) :: real) \<le> of_int ((u + 2 ^ 30 - 1) * 2 ^ 30)"
    using o by (simp_all only: of_int_le_iff)
  then have oo: "of_int l / 2 ^ 30 + 1 / 2 ^ 30 \<le> 2 * CL\<^sup>2 - 1" "2 * CU\<^sup>2 - 1 \<le> of_int u / 2 ^ 30 - 1 / 2 ^ 30"
    by (simp_all add: CL_def CU_def field_simps power2_eq_square)
  define w :: real where "w = 1 / 2 ^ 30"
  have "\<bar>c' - (2 * c\<^sup>2 - 1)\<bar> \<le> w" "of_int l / 2 ^ 30 + w \<le> 2 * CL\<^sup>2 - 1"
    "2 * CU\<^sup>2 - 1 \<le> of_int u / 2 ^ 30 - w"
    using e6 oo by (simp_all only: w_def)
  then have "of_int l / 2 ^ 30 \<le> c'" "c' \<le> of_int u / 2 ^ 30" using c2 by linarith+
  then have "encl l u (Fin c')" by (simp add: encl_Fin)
  moreover have "py_acos L (fneg (Fin a)) = Inr (Fin A')" using a01 by (simp add: A'_def)
  moreover have "py_cos L (fmul (ofl (2 / 3)) (Fin A')) = Inr (Fin c')"
    by (simp only: tf thf py_cos.simps c'_def)
  ultimately show ?thesis by blast
qed

subsection \<open>Clamps, constants and relative errors\<close>

lemma encl_int: "encl (n * 2 ^ 30) (n * 2 ^ 30) (Fin (of_int n))"
  by (simp add: encl_Fin)

lemma encl_1: "encl (2 ^ 30) (2 ^ 30) (Fin 1)"
  using encl_int[of 1] by simp

lemma encl_2: "encl (2 * 2 ^ 30) (2 * 2 ^ 30) (Fin 2)"
  using encl_int[of 2] by simp

lemma encl_3: "encl (3 * 2 ^ 30) (3 * 2 ^ 30) (Fin 3)"
  using encl_int[of 3] by simp

lemma encl_half: "encl (2 ^ 29) (2 ^ 29) (Fin (1/2))"
  by (simp add: encl_Fin)

lemma photon_radius_steps:
  assumes "py_max (py_min (fabs spin') (Fin (rnd (999 / 1000)))) (Fin (rnd (1 / 10 ^ 6))) = a"
    and "py_acos L (fneg a) = Inr ac"
    and "py_cos L (fmul (ofl (2 / 3)) ac) = Inr c"
  shows "photon_radius L spin' = Inr (fmul (Fin 2) (fadd (Fin 1) c))"
  using assms unfolding photon_radius_def Let_def bind_exn_def by simp

lemma c999_ge: "15/16 \<le> rnd (999 / 1000)"
proof -
  have "rnd (15/16) \<le> rnd (999/1000)" by (rule rnd_mono) simp
  moreover have "rnd (15/16) = 15/16" using rnd_frac[of 15 4] by simp
  ultimately show ?thesis by simp
qed

lemma c998_le: "rnd (998 / 1000) \<le> 1023 / 1024"
proof -
  have "rnd (998/1000) \<le> rnd (1023/1024)" by (rule rnd_mono) simp
  moreover have "rnd (1023/1024) = 1023/1024" using rnd_frac[of 1023 10] by simp
  ultimately show ?thesis by simp
qed

lemma c1e6: "0 < rnd (1 / 10 ^ 6)" "rnd (1 / 10 ^ 6) \<le> 1 / 2 ^ 19"
proof -
  have "rnd (1 / 2 ^ 20) \<le> rnd (1 / 10 ^ 6)" by (rule rnd_mono) simp
  moreover have "rnd (1 / 2 ^ 20) = 1 / 2 ^ 20" by (rule rnd_one_frac) simp
  ultimately show "0 < rnd (1 / 10 ^ 6)" by simp
  show "rnd (1 / 10 ^ 6) \<le> 1 / 2 ^ 19" by (rule rnd_le) (simp, rule rnd_one_frac, simp)
qed

lemma photon_clamp_id:
  assumes "1 / 2 ^ 19 \<le> a" "a \<le> rnd (999 / 1000)"
  shows "py_max (py_min (fabs (Fin a)) (Fin (rnd (999 / 1000)))) (Fin (rnd (1 / 10 ^ 6))) = Fin a"
proof -
  have "0 \<le> a" using assms(1) by (rule order_trans[rotated]) simp
  then show ?thesis using assms c999_ge c1e6 by (auto simp: py_max_def py_min_def)
qed

lemma photon_clamp_0:
  "py_max (py_min (fabs (Fin 0)) (Fin (rnd (999 / 1000)))) (Fin (rnd (1 / 10 ^ 6))) = Fin (rnd (1 / 10 ^ 6))"
  using c999_ge c1e6 by (auto simp: py_max_def py_min_def)

lemma rel_err_bound:
  assumes v: "encl vl vu (Fin v)" and e: "encl el eu (Fin x)" and p: "0 < el"
    and b: "1000 * (vu - el) < 8 * el" "1000 * (eu - vl) < 8 * el"
  shows "\<bar>v - x\<bar> / x < 8 / 1000"
proof -
  define VL VU EL EU :: real where "VL = of_int vl / 2 ^ 30" and "VU = of_int vu / 2 ^ 30"
    and "EL = of_int el / 2 ^ 30" and "EU = of_int eu / 2 ^ 30"
  have vb: "VL \<le> v" "v \<le> VU" using v by (simp_all add: encl_Fin VL_def VU_def)
  have eb: "EL \<le> x" "x \<le> EU" using e by (simp_all add: encl_Fin EL_def EU_def)
  have "(0::real) < of_int el" using p by simp
  then have el0: "0 < EL" by (simp add: EL_def)
  then have x0: "0 < x" using eb by linarith
  have "(of_int (1000 * (vu - el)) :: real) < of_int (8 * el)" "(of_int (1000 * (eu - vl)) :: real) < of_int (8 * el)"
    using b by (simp_all only: of_int_less_iff)
  then have c: "1000 * (VU - EL) < 8 * EL" "1000 * (EU - VL) < 8 * EL"
    by (simp_all add: field_simps VL_def VU_def EL_def EU_def)
  have "1000 * \<bar>v - x\<bar> < 8 * x" using vb eb c by argo
  then show ?thesis using x0 by (simp add: field_simps)
qed

lemma py_max_encl: "encl l u a \<Longrightarrow> encl l u b \<Longrightarrow> encl l u (py_max a b)"
  by (simp add: py_max_def)

lemma foldl_py_max_encl:
  "encl l u x \<Longrightarrow> (\<forall>y \<in> set xs. encl l u y) \<Longrightarrow> encl l u (foldl py_max x xs)"
  by (induction xs arbitrary: x) (simp_all add: py_max_encl)

lemma thr_ge: "8589934 / 2 ^ 30 \<le> rnd (8 / 1000)"
  by (rule rnd_ge) (simp, rule rnd_numeral_frac, simp_all)

subsection \<open>Evaluation at the reference spins\<close>

lemma isco_half_clamp: "\<bar>1 / 2\<bar> \<le> rnd (998 / 1000)"
  using c998_bounds(1) by simp

lemma lit_nonneg_09: "0 \<le> rnd (9 / 10)"
  by (rule rnd_nonneg) simp

lemma isco_09_clamp: "\<bar>rnd (9 / 10)\<bar> \<le> rnd (998 / 1000)"
  using rnd_mono[of "9 / 10" "998 / 1000"] lit_nonneg_09 by simp

lemma isco_0998_clamp: "\<bar>rnd (998 / 1000)\<bar> \<le> rnd (998 / 1000)"
  using c998_bounds(1) by simp

lemma photon_half_clamp: "1 / 2 ^ 19 \<le> (1 / 2 :: real)" "1 / 2 \<le> rnd (999 / 1000)"
  using c999_ge by simp_all

lemma half_le_09: "1 / 2 \<le> rnd (9 / 10)"
  by (rule rnd_ge) (simp, use rnd_frac[of 1 1] in simp)

lemma photon_09_clamp: "1 / 2 ^ 19 \<le> rnd (9 / 10)" "rnd (9 / 10) \<le> rnd (999 / 1000)"
proof -
  show "1 / 2 ^ 19 \<le> rnd (9 / 10)" using half_le_09 by (rule order_trans[rotated]) simp
  show "rnd (9 / 10) \<le> rnd (999 / 1000)" by (rule rnd_mono) simp
qed

lemma photon_0998_clamp: "1 / 2 ^ 19 \<le> rnd (998 / 1000)" "rnd (998 / 1000) \<le> rnd (999 / 1000)"
proof -
  show "1 / 2 ^ 19 \<le> rnd (998 / 1000)" using c998_bounds(1) by (rule order_trans[rotated]) simp
  show "rnd (998 / 1000) \<le> rnd (999 / 1000)" by (rule rnd_mono) simp
qed

lemma isco_half:
  assumes L: "libm_acc L"
  shows "\<exists>v. isco_radius L (Fin (1 / 2)) = Inr v \<and> encl 4545151823 4545151881 v"
proof -
  have A: "encl 536870912 536870912 (Fin (1 / 2))"
    by (simp add: encl_Fin)
  have h1: "encl 268435456 268435456 (fmul (Fin (1 / 2)) (Fin (1 / 2)))"
    by (rule encl_mul[OF A A]) simp_all
  have h2: "encl 805306368 805306368 (fsub (Fin 1) (fmul (Fin (1 / 2)) (Fin (1 / 2))))"
    by (rule encl_sub[OF encl_1 h1]) simp_all
  have "\<exists>v. py_pow L (fsub (Fin 1) (fmul (Fin (1 / 2)) (Fin (1 / 2)))) third = Inr v \<and> encl 975559188 975559191 v"
    by (rule encl_pow[OF L h2]) simp_all
  then obtain t where t_eq: "py_pow L (fsub (Fin 1) (fmul (Fin (1 / 2)) (Fin (1 / 2)))) third = Inr t" and h3: "encl 975559188 975559191 t"
    by blast
  have h4: "encl 1610612736 1610612736 (fadd (Fin 1) (Fin (1 / 2)))"
    by (rule encl_add[OF encl_1 A]) simp_all
  have "\<exists>v. py_pow L (fadd (Fin 1) (Fin (1 / 2))) third = Inr v \<and> encl 1229127557 1229127560 v"
    by (rule encl_pow[OF L h4]) simp_all
  then obtain p where p_eq: "py_pow L (fadd (Fin 1) (Fin (1 / 2))) third = Inr p" and h5: "encl 1229127557 1229127560 p"
    by blast
  have h6: "encl 536870912 536870912 (fsub (Fin 1) (Fin (1 / 2)))"
    by (rule encl_sub[OF encl_1 A]) simp_all
  have "\<exists>v. py_pow L (fsub (Fin 1) (Fin (1 / 2))) third = Inr v \<and> encl 852229449 852229452 v"
    by (rule encl_pow[OF L h6]) simp_all
  then obtain q where q_eq: "py_pow L (fsub (Fin 1) (Fin (1 / 2))) third = Inr q" and h7: "encl 852229449 852229452 q"
    by blast
  have h8: "encl 2081357006 2081357012 (fadd (p) (q))"
    by (rule encl_add[OF h5 h7]) simp_all
  have h9: "encl 1891038334 1891038346 (fmul (t) (fadd (p) (q)))"
    by (rule encl_mul[OF h3 h8]) simp_all
  have h10: "encl 2964780158 2964780170 (fadd (Fin 1) (fmul (t) (fadd (p) (q))))"
    by (rule encl_add[OF encl_1 h9]) simp_all
  define z1 where "z1 = fadd (Fin 1) (fmul (t) (fadd (p) (q)))"
  have Z1: "encl 2964780158 2964780170 z1"
    unfolding z1_def by (rule h10)
  have h11: "encl 1610612736 1610612736 (fmul (Fin 3) (Fin (1 / 2)))"
    by (rule encl_mul[OF encl_3 A]) simp_all
  have h12: "encl 805306368 805306368 (fmul (fmul (Fin 3) (Fin (1 / 2))) (Fin (1 / 2)))"
    by (rule encl_mul[OF h11 A]) simp_all
  have h13: "encl 8186252215 8186252282 (fmul (z1) (z1))"
    by (rule encl_mul[OF Z1 Z1]) simp_all
  have h14: "encl 8991558583 8991558650 (fadd (fmul (fmul (Fin 3) (Fin (1 / 2))) (Fin (1 / 2))) (fmul (z1) (z1)))"
    by (rule encl_add[OF h12 h13]) simp_all
  have "\<exists>v. py_sqrt (fadd (fmul (fmul (Fin 3) (Fin (1 / 2))) (Fin (1 / 2))) (fmul (z1) (z1))) = Inr v \<and> encl 3107187235 3107187247 v"
    by (rule encl_sqrt[OF h14]) simp_all
  then obtain z2 where z2_eq: "py_sqrt (fadd (fmul (fmul (Fin 3) (Fin (1 / 2))) (Fin (1 / 2))) (fmul (z1) (z1))) = Inr z2" and h15: "encl 3107187235 3107187247 z2"
    by blast
  have h16: "encl 256445302 256445314 (fsub (Fin 3) (z1))"
    by (rule encl_sub[OF encl_3 Z1]) simp_all
  have h17: "encl 6186005630 6186005642 (fadd (Fin 3) (z1))"
    by (rule encl_add[OF encl_3 Z1]) simp_all
  have h18: "encl 6214374470 6214374494 (fmul (Fin 2) (z2))"
    by (rule encl_mul[OF encl_2 h15]) simp_all
  have h19: "encl 12400380100 12400380136 (fadd (fadd (Fin 3) (z1)) (fmul (Fin 2) (z2)))"
    by (rule encl_add[OF h17 h18]) simp_all
  have h20: "encl 2961623686 2961623835 (fmul (fsub (Fin 3) (z1)) (fadd (fadd (Fin 3) (z1)) (fmul (Fin 2) (z2))))"
    by (rule encl_mul[OF h16 h19]) simp_all
  have "\<exists>v. py_sqrt (fmul (fsub (Fin 3) (z1)) (fadd (fadd (Fin 3) (z1)) (fmul (Fin 2) (z2)))) = Inr v \<and> encl 1783260838 1783260884 v"
    by (rule encl_sqrt[OF h20]) simp_all
  then obtain s where s_eq: "py_sqrt (fmul (fsub (Fin 3) (z1)) (fadd (fadd (Fin 3) (z1)) (fmul (Fin 2) (z2)))) = Inr s" and h21: "encl 1783260838 1783260884 s"
    by blast
  have h22: "encl 6328412707 6328412719 (fadd (Fin 3) (z2))"
    by (rule encl_add[OF encl_3 h15]) simp_all
  have h23: "encl 1783260838 1783260884 (fmul (Fin 1) (s))"
    by (rule encl_mul[OF encl_1 h21]) simp_all
  have h24: "encl 4545151823 4545151881 (fsub (fadd (Fin 3) (z2)) (fmul (Fin 1) (s)))"
    by (rule encl_sub[OF h22 h23]) simp_all
  have ge: "fge (Fin (1 / 2)) (Fin 0)"
    using A by (simp add: fge_def is_nan_def encl_Fin)
  have cl: "py_max (py_min (Fin (1 / 2)) (Fin (rnd (998 / 1000)))) (Fin (- rnd (998 / 1000))) = Fin (1 / 2)"
    by (rule clamp_id) (rule isco_half_clamp)
  have "isco_radius L (Fin (1 / 2)) =
    Inr (fsub (fadd (Fin 3) z2) (fmul (if fge (Fin (1 / 2)) (Fin 0) then Fin 1 else Fin (- 1)) s))"
    by (rule isco_radius_steps[OF cl t_eq p_eq q_eq z1_def z2_eq s_eq])
  then have "isco_radius L (Fin (1 / 2)) = Inr (fsub (fadd (Fin 3) (z2)) (fmul (Fin 1) (s)))"
    using ge by simp
  then show ?thesis using h24 by blast
qed

lemma isco_09:
  assumes L: "libm_acc L"
  shows "\<exists>v. isco_radius L (Fin (rnd (9 / 10))) = Inr v \<and> encl 2492029164 2492029217 v"
proof -
  have A: "encl 966367641 966367642 (Fin (rnd (9 / 10)))"
    by (rule encl_lit) simp_all
  have h1: "encl 869730876 869730879 (fmul (Fin (rnd (9 / 10))) (Fin (rnd (9 / 10))))"
    by (rule encl_mul[OF A A]) simp_all
  have h2: "encl 204010945 204010948 (fsub (Fin 1) (fmul (Fin (rnd (9 / 10))) (Fin (rnd (9 / 10)))))"
    by (rule encl_sub[OF encl_1 h1]) simp_all
  have "\<exists>v. py_pow L (fsub (Fin 1) (fmul (Fin (rnd (9 / 10))) (Fin (rnd (9 / 10))))) third = Inr v \<and> encl 617283120 617283127 v"
    by (rule encl_pow[OF L h2]) simp_all
  then obtain t where t_eq: "py_pow L (fsub (Fin 1) (fmul (Fin (rnd (9 / 10))) (Fin (rnd (9 / 10))))) third = Inr t" and h3: "encl 617283120 617283127 t"
    by blast
  have h4: "encl 2040109465 2040109466 (fadd (Fin 1) (Fin (rnd (9 / 10))))"
    by (rule encl_add[OF encl_1 A]) simp_all
  have "\<exists>v. py_pow L (fadd (Fin 1) (Fin (rnd (9 / 10)))) third = Inr v \<and> encl 1329896173 1329896177 v"
    by (rule encl_pow[OF L h4]) simp_all
  then obtain p where p_eq: "py_pow L (fadd (Fin 1) (Fin (rnd (9 / 10)))) third = Inr p" and h5: "encl 1329896173 1329896177 p"
    by blast
  have h6: "encl 107374182 107374183 (fsub (Fin 1) (Fin (rnd (9 / 10))))"
    by (rule encl_sub[OF encl_1 A]) simp_all
  have "\<exists>v. py_pow L (fsub (Fin 1) (Fin (rnd (9 / 10)))) third = Inr v \<and> encl 498386804 498386808 v"
    by (rule encl_pow[OF L h6]) simp_all
  then obtain q where q_eq: "py_pow L (fsub (Fin 1) (Fin (rnd (9 / 10)))) third = Inr q" and h7: "encl 498386804 498386808 q"
    by blast
  have h8: "encl 1828282977 1828282985 (fadd (p) (q))"
    by (rule encl_add[OF h5 h7]) simp_all
  have h9: "encl 1051061060 1051061078 (fmul (t) (fadd (p) (q)))"
    by (rule encl_mul[OF h3 h8]) simp_all
  have h10: "encl 2124802884 2124802902 (fadd (Fin 1) (fmul (t) (fadd (p) (q))))"
    by (rule encl_add[OF encl_1 h9]) simp_all
  define z1 where "z1 = fadd (Fin 1) (fmul (t) (fadd (p) (q)))"
  have Z1: "encl 2124802884 2124802902 z1"
    unfolding z1_def by (rule h10)
  have h11: "encl 2899102923 2899102926 (fmul (Fin 3) (Fin (rnd (9 / 10))))"
    by (rule encl_mul[OF encl_3 A]) simp_all
  have h12: "encl 2609192629 2609192635 (fmul (fmul (Fin 3) (Fin (rnd (9 / 10)))) (Fin (rnd (9 / 10))))"
    by (rule encl_mul[OF h11 A]) simp_all
  have h13: "encl 4204723328 4204723400 (fmul (z1) (z1))"
    by (rule encl_mul[OF Z1 Z1]) simp_all
  have h14: "encl 6813915957 6813916035 (fadd (fmul (fmul (Fin 3) (Fin (rnd (9 / 10)))) (Fin (rnd (9 / 10)))) (fmul (z1) (z1)))"
    by (rule encl_add[OF h12 h13]) simp_all
  have "\<exists>v. py_sqrt (fadd (fmul (fmul (Fin 3) (Fin (rnd (9 / 10)))) (Fin (rnd (9 / 10)))) (fmul (z1) (z1))) = Inr v \<and> encl 2704881984 2704882000 v"
    by (rule encl_sqrt[OF h14]) simp_all
  then obtain z2 where z2_eq: "py_sqrt (fadd (fmul (fmul (Fin 3) (Fin (rnd (9 / 10)))) (Fin (rnd (9 / 10)))) (fmul (z1) (z1))) = Inr z2" and h15: "encl 2704881984 2704882000 z2"
    by blast
  have h16: "encl 1096422570 1096422588 (fsub (Fin 3) (z1))"
    by (rule encl_sub[OF encl_3 Z1]) simp_all
  have h17: "encl 5346028356 5346028374 (fadd (Fin 3) (z1))"
    by (rule encl_add[OF encl_3 Z1]) simp_all
  have h18: "encl 5409763968 5409764000 (fmul (Fin 2) (z2))"
    by (rule encl_mul[OF encl_2 h15]) simp_all
  have h19: "encl 10755792324 10755792374 (fadd (fadd (Fin 3) (z1)) (fmul (Fin 2) (z2)))"
    by (rule encl_add[OF h17 h18]) simp_all
  have h20: "encl 10982987901 10982988133 (fmul (fsub (Fin 3) (z1)) (fadd (fadd (Fin 3) (z1)) (fmul (Fin 2) (z2))))"
    by (rule encl_mul[OF h16 h19]) simp_all
  have "\<exists>v. py_sqrt (fmul (fsub (Fin 3) (z1)) (fadd (fadd (Fin 3) (z1)) (fmul (Fin 2) (z2)))) = Inr v \<and> encl 3434078255 3434078292 v"
    by (rule encl_sqrt[OF h20]) simp_all
  then obtain s where s_eq: "py_sqrt (fmul (fsub (Fin 3) (z1)) (fadd (fadd (Fin 3) (z1)) (fmul (Fin 2) (z2)))) = Inr s" and h21: "encl 3434078255 3434078292 s"
    by blast
  have h22: "encl 5926107456 5926107472 (fadd (Fin 3) (z2))"
    by (rule encl_add[OF encl_3 h15]) simp_all
  have h23: "encl 3434078255 3434078292 (fmul (Fin 1) (s))"
    by (rule encl_mul[OF encl_1 h21]) simp_all
  have h24: "encl 2492029164 2492029217 (fsub (fadd (Fin 3) (z2)) (fmul (Fin 1) (s)))"
    by (rule encl_sub[OF h22 h23]) simp_all
  have ge: "fge (Fin (rnd (9 / 10))) (Fin 0)"
    using A by (simp add: fge_def is_nan_def encl_Fin)
  have cl: "py_max (py_min (Fin (rnd (9 / 10))) (Fin (rnd (998 / 1000)))) (Fin (- rnd (998 / 1000))) = Fin (rnd (9 / 10))"
    by (rule clamp_id) (rule isco_09_clamp)
  have "isco_radius L (Fin (rnd (9 / 10))) =
    Inr (fsub (fadd (Fin 3) z2) (fmul (if fge (Fin (rnd (9 / 10))) (Fin 0) then Fin 1 else Fin (- 1)) s))"
    by (rule isco_radius_steps[OF cl t_eq p_eq q_eq z1_def z2_eq s_eq])
  then have "isco_radius L (Fin (rnd (9 / 10))) = Inr (fsub (fadd (Fin 3) (z2)) (fmul (Fin 1) (s)))"
    using ge by simp
  then show ?thesis using h24 by blast
qed

lemma isco_0998:
  assumes L: "libm_acc L"
  shows "\<exists>v. isco_radius L (Fin (rnd (998 / 1000))) = Inr v \<and> encl 1328187060 1328187201 v"
proof -
  have A: "encl 1071594340 1071594341 (Fin (rnd (998 / 1000)))"
    by (rule encl_lit) simp_all
  have h1: "encl 1069451150 1069451153 (fmul (Fin (rnd (998 / 1000))) (Fin (rnd (998 / 1000))))"
    by (rule encl_mul[OF A A]) simp_all
  have h2: "encl 4290671 4290674 (fsub (Fin 1) (fmul (Fin (rnd (998 / 1000))) (Fin (rnd (998 / 1000)))))"
    by (rule encl_sub[OF encl_1 h1]) simp_all
  have "\<exists>v. py_pow L (fsub (Fin 1) (fmul (Fin (rnd (998 / 1000))) (Fin (rnd (998 / 1000))))) third = Inr v \<and> encl 170389037 170389079 v"
    by (rule encl_pow[OF L h2]) simp_all
  then obtain t where t_eq: "py_pow L (fsub (Fin 1) (fmul (Fin (rnd (998 / 1000))) (Fin (rnd (998 / 1000))))) third = Inr t" and h3: "encl 170389037 170389079 t"
    by blast
  have h4: "encl 2145336164 2145336165 (fadd (Fin 1) (Fin (rnd (998 / 1000))))"
    by (rule encl_add[OF encl_1 A]) simp_all
  have "\<exists>v. py_pow L (fadd (Fin 1) (Fin (rnd (998 / 1000)))) third = Inr v \<and> encl 1352378831 1352378834 v"
    by (rule encl_pow[OF L h4]) simp_all
  then obtain p where p_eq: "py_pow L (fadd (Fin 1) (Fin (rnd (998 / 1000)))) third = Inr p" and h5: "encl 1352378831 1352378834 p"
    by blast
  have h6: "encl 2147483 2147484 (fsub (Fin 1) (Fin (rnd (998 / 1000))))"
    by (rule encl_sub[OF encl_1 A]) simp_all
  have "\<exists>v. py_pow L (fsub (Fin 1) (Fin (rnd (998 / 1000)))) third = Inr v \<and> encl 135282978 135283002 v"
    by (rule encl_pow[OF L h6]) simp_all
  then obtain q where q_eq: "py_pow L (fsub (Fin 1) (Fin (rnd (998 / 1000)))) third = Inr q" and h7: "encl 135282978 135283002 q"
    by blast
  have h8: "encl 1487661809 1487661836 (fadd (p) (q))"
    by (rule encl_add[OF h5 h7]) simp_all
  have h9: "encl 236072822 236072885 (fmul (t) (fadd (p) (q)))"
    by (rule encl_mul[OF h3 h8]) simp_all
  have h10: "encl 1309814646 1309814709 (fadd (Fin 1) (fmul (t) (fadd (p) (q))))"
    by (rule encl_add[OF encl_1 h9]) simp_all
  define z1 where "z1 = fadd (Fin 1) (fmul (t) (fadd (p) (q)))"
  have Z1: "encl 1309814646 1309814709 z1"
    unfolding z1_def by (rule h10)
  have h11: "encl 3214783020 3214783023 (fmul (Fin 3) (Fin (rnd (998 / 1000))))"
    by (rule encl_mul[OF encl_3 A]) simp_all
  have h12: "encl 3208353452 3208353459 (fmul (fmul (Fin 3) (Fin (rnd (998 / 1000)))) (Fin (rnd (998 / 1000))))"
    by (rule encl_mul[OF h11 A]) simp_all
  have h13: "encl 1597790426 1597790581 (fmul (z1) (z1))"
    by (rule encl_mul[OF Z1 Z1]) simp_all
  have h14: "encl 4806143878 4806144040 (fadd (fmul (fmul (Fin 3) (Fin (rnd (998 / 1000)))) (Fin (rnd (998 / 1000)))) (fmul (z1) (z1)))"
    by (rule encl_add[OF h12 h13]) simp_all
  have "\<exists>v. py_sqrt (fadd (fmul (fmul (Fin 3) (Fin (rnd (998 / 1000)))) (Fin (rnd (998 / 1000)))) (fmul (z1) (z1))) = Inr v \<and> encl 2271686090 2271686129 v"
    by (rule encl_sqrt[OF h14]) simp_all
  then obtain z2 where z2_eq: "py_sqrt (fadd (fmul (fmul (Fin 3) (Fin (rnd (998 / 1000)))) (Fin (rnd (998 / 1000)))) (fmul (z1) (z1))) = Inr z2" and h15: "encl 2271686090 2271686129 z2"
    by blast
  have h16: "encl 1911410763 1911410826 (fsub (Fin 3) (z1))"
    by (rule encl_sub[OF encl_3 Z1]) simp_all
  have h17: "encl 4531040118 4531040181 (fadd (Fin 3) (z1))"
    by (rule encl_add[OF encl_3 Z1]) simp_all
  have h18: "encl 4543372180 4543372258 (fmul (Fin 2) (z2))"
    by (rule encl_mul[OF encl_2 h15]) simp_all
  have h19: "encl 9074412298 9074412439 (fadd (fadd (Fin 3) (z1)) (fmul (Fin 2) (z2)))"
    by (rule encl_add[OF h17 h18]) simp_all
  have h20: "encl 16153724244 16153725028 (fmul (fsub (Fin 3) (z1)) (fadd (fadd (Fin 3) (z1)) (fmul (Fin 2) (z2))))"
    by (rule encl_mul[OF h16 h19]) simp_all
  have "\<exists>v. py_sqrt (fmul (fsub (Fin 3) (z1)) (fadd (fadd (Fin 3) (z1)) (fmul (Fin 2) (z2)))) = Inr v \<and> encl 4164724400 4164724502 v"
    by (rule encl_sqrt[OF h20]) simp_all
  then obtain s where s_eq: "py_sqrt (fmul (fsub (Fin 3) (z1)) (fadd (fadd (Fin 3) (z1)) (fmul (Fin 2) (z2)))) = Inr s" and h21: "encl 4164724400 4164724502 s"
    by blast
  have h22: "encl 5492911562 5492911601 (fadd (Fin 3) (z2))"
    by (rule encl_add[OF encl_3 h15]) simp_all
  have h23: "encl 4164724400 4164724502 (fmul (Fin 1) (s))"
    by (rule encl_mul[OF encl_1 h21]) simp_all
  have h24: "encl 1328187060 1328187201 (fsub (fadd (Fin 3) (z2)) (fmul (Fin 1) (s)))"
    by (rule encl_sub[OF h22 h23]) simp_all
  have ge: "fge (Fin (rnd (998 / 1000))) (Fin 0)"
    using A by (simp add: fge_def is_nan_def encl_Fin)
  have cl: "py_max (py_min (Fin (rnd (998 / 1000))) (Fin (rnd (998 / 1000)))) (Fin (- rnd (998 / 1000))) = Fin (rnd (998 / 1000))"
    by (rule clamp_id) (rule isco_0998_clamp)
  have "isco_radius L (Fin (rnd (998 / 1000))) =
    Inr (fsub (fadd (Fin 3) z2) (fmul (if fge (Fin (rnd (998 / 1000))) (Fin 0) then Fin 1 else Fin (- 1)) s))"
    by (rule isco_radius_steps[OF cl t_eq p_eq q_eq z1_def z2_eq s_eq])
  then have "isco_radius L (Fin (rnd (998 / 1000))) = Inr (fsub (fadd (Fin 3) (z2)) (fmul (Fin 1) (s)))"
    using ge by simp
  then show ?thesis using h24 by blast
qed

lemma photon_0:
  assumes L: "libm_acc L"
  shows "\<exists>v. photon_radius L (Fin (0)) = Inr v \<and> encl 3221224196 3221224264 v"
proof -
  have A: "encl 1073 1074 (Fin (rnd (1 / 10 ^ 6)))"
    by (rule encl_lit) simp_all
  have "\<exists>ac c. py_acos L (fneg (Fin (rnd (1 / 10 ^ 6)))) = Inr ac \<and> py_cos L (fmul (ofl (2 / 3)) ac) = Inr c
      \<and> encl 536870274 536870308 c"
    by (rule encl_photon_cos[OF L A, where cl = 929887513 and cu = 929887522]) simp_all
  then obtain ac c where ac_eq: "py_acos L (fneg (Fin (rnd (1 / 10 ^ 6)))) = Inr ac"
    and c_eq: "py_cos L (fmul (ofl (2 / 3)) ac) = Inr c" and C: "encl 536870274 536870308 c"
    by blast
  have h1: "encl 1610612098 1610612132 (fadd (Fin 1) (c))"
    by (rule encl_add[OF encl_1 C]) simp_all
  have h2: "encl 3221224196 3221224264 (fmul (Fin 2) (fadd (Fin 1) (c)))"
    by (rule encl_mul[OF encl_2 h1]) simp_all
  have cl: "py_max (py_min (fabs (Fin (0))) (Fin (rnd (999 / 1000)))) (Fin (rnd (1 / 10 ^ 6))) = Fin (rnd (1 / 10 ^ 6))"
    by (rule photon_clamp_0)
  have "photon_radius L (Fin (0)) = Inr (fmul (Fin 2) (fadd (Fin 1) (c)))"
    by (rule photon_radius_steps[OF cl ac_eq c_eq])
  then show ?thesis using h2 by blast
qed

lemma photon_half:
  assumes L: "libm_acc L"
  shows "\<exists>v. photon_radius L (Fin (1 / 2)) = Inr v \<and> encl 2520390238 2520390300 v"
proof -
  have A: "encl 536870912 536870912 (Fin (1 / 2))"
    by (simp add: encl_Fin)
  have "\<exists>ac c. py_acos L (fneg (Fin (1 / 2))) = Inr ac \<and> py_cos L (fmul (ofl (2 / 3)) ac) = Inr c
      \<and> encl 186453295 186453326 c"
    by (rule encl_photon_cos[OF L A, where cl = 822533953 and cu = 822533962]) simp_all
  then obtain ac c where ac_eq: "py_acos L (fneg (Fin (1 / 2))) = Inr ac"
    and c_eq: "py_cos L (fmul (ofl (2 / 3)) ac) = Inr c" and C: "encl 186453295 186453326 c"
    by blast
  have h1: "encl 1260195119 1260195150 (fadd (Fin 1) (c))"
    by (rule encl_add[OF encl_1 C]) simp_all
  have h2: "encl 2520390238 2520390300 (fmul (Fin 2) (fadd (Fin 1) (c)))"
    by (rule encl_mul[OF encl_2 h1]) simp_all
  have cl: "py_max (py_min (fabs (Fin (1 / 2))) (Fin (rnd (999 / 1000)))) (Fin (rnd (1 / 10 ^ 6))) = Fin (1 / 2)"
    by (rule photon_clamp_id) (rule photon_half_clamp)+
  have "photon_radius L (Fin (1 / 2)) = Inr (fmul (Fin 2) (fadd (Fin 1) (c)))"
    by (rule photon_radius_steps[OF cl ac_eq c_eq])
  then show ?thesis using h2 by blast
qed

lemma photon_09:
  assumes L: "libm_acc L"
  shows "\<exists>v. photon_radius L (Fin (rnd (9 / 10))) = Inr v \<and> encl 1672733644 1672733696 v"
proof -
  have A: "encl 966367641 966367642 (Fin (rnd (9 / 10)))"
    by (rule encl_lit) simp_all
  have "\<exists>ac c. py_acos L (fneg (Fin (rnd (9 / 10)))) = Inr ac \<and> py_cos L (fmul (ofl (2 / 3)) ac) = Inr c
      \<and> encl (-237375002) (-237374976) c"
    by (rule encl_photon_cos[OF L A, where cl = 670090307 and cu = 670090316]) simp_all
  then obtain ac c where ac_eq: "py_acos L (fneg (Fin (rnd (9 / 10)))) = Inr ac"
    and c_eq: "py_cos L (fmul (ofl (2 / 3)) ac) = Inr c" and C: "encl (-237375002) (-237374976) c"
    by blast
  have h1: "encl 836366822 836366848 (fadd (Fin 1) (c))"
    by (rule encl_add[OF encl_1 C]) simp_all
  have h2: "encl 1672733644 1672733696 (fmul (Fin 2) (fadd (Fin 1) (c)))"
    by (rule encl_mul[OF encl_2 h1]) simp_all
  have cl: "py_max (py_min (fabs (Fin (rnd (9 / 10)))) (Fin (rnd (999 / 1000)))) (Fin (rnd (1 / 10 ^ 6))) = Fin (rnd (9 / 10))"
    by (rule photon_clamp_id) (rule photon_09_clamp)+
  have "photon_radius L (Fin (rnd (9 / 10))) = Inr (fmul (Fin 2) (fadd (Fin 1) (c)))"
    by (rule photon_radius_steps[OF cl ac_eq c_eq])
  then show ?thesis using h2 by blast
qed

lemma photon_0998:
  assumes L: "libm_acc L"
  shows "\<exists>v. photon_radius L (Fin (rnd (998 / 1000))) = Inr v \<and> encl 1153101262 1153101306 v"
proof -
  have A: "encl 1071594340 1071594341 (Fin (rnd (998 / 1000)))"
    by (rule encl_lit) simp_all
  have "\<exists>ac c. py_acos L (fneg (Fin (rnd (998 / 1000)))) = Inr ac \<and> py_cos L (fmul (ofl (2 / 3)) ac) = Inr c
      \<and> encl (-497191193) (-497191171) c"
    by (rule encl_photon_cos[OF L A, where cl = 556357137 and cu = 556357146]) simp_all
  then obtain ac c where ac_eq: "py_acos L (fneg (Fin (rnd (998 / 1000)))) = Inr ac"
    and c_eq: "py_cos L (fmul (ofl (2 / 3)) ac) = Inr c" and C: "encl (-497191193) (-497191171) c"
    by blast
  have h1: "encl 576550631 576550653 (fadd (Fin 1) (c))"
    by (rule encl_add[OF encl_1 C]) simp_all
  have h2: "encl 1153101262 1153101306 (fmul (Fin 2) (fadd (Fin 1) (c)))"
    by (rule encl_mul[OF encl_2 h1]) simp_all
  have cl: "py_max (py_min (fabs (Fin (rnd (998 / 1000)))) (Fin (rnd (999 / 1000)))) (Fin (rnd (1 / 10 ^ 6))) = Fin (rnd (998 / 1000))"
    by (rule photon_clamp_id) (rule photon_0998_clamp)+
  have "photon_radius L (Fin (rnd (998 / 1000))) = Inr (fmul (Fin 2) (fadd (Fin 1) (c)))"
    by (rule photon_radius_steps[OF cl ac_eq c_eq])
  then show ?thesis using h2 by blast
qed

subsection \<open>The comparator and the aggregator\<close>

lemma bind_exn_Inr [simp]: "bind_exn (Inr v) f = f v"
  by (simp add: bind_exn_def)

lemma bind_exn_Inl [simp]: "bind_exn (Inl e) f = Inl e"
  by (simp add: bind_exn_def)

lemma bind_exn_eq_Inr:
  "bind_exn m f = Inr r \<longleftrightarrow> (\<exists>v. m = Inr v \<and> f v = Inr r)"
  by (cases m) simp_all

lemma gravitational_radius_returns: "\<exists>g. gravitational_radius mass = Inr g"
proof -
  have b: "\<bar>of_int (C * C) :: real\<bar> \<le> 2 ^ 1023"
    by (simp add: C_def order_trans[where y = "2 ^ 64"])
  have "rnd 1 \<le> rnd (of_int (C * C))" by (rule rnd_mono) (simp add: C_def)
  then have "rnd (of_int (C * C)) \<noteq> 0" by simp
  then show ?thesis
    unfolding gravitational_radius_def ofl_Fin[OF b]
    by (cases "fmul (fmul (fmul (Fin 2) G) mass) SOLAR_MASS") simp_all
qed

lemma check_series_shape:
  "check_series reference fn label = Inr es \<Longrightarrow>
    map fst es = replicate (length reference) label \<and> map (fst \<circ> snd) es = map fst reference"
proof (induction reference arbitrary: es)
  case Nil
  then show ?case by simp
next
  case (Cons row reference)
  obtain s e where row: "row = (s, e)" by (cases row)
  from Cons.prems obtain v r es' where "fn s = Inr v" "fdiv (fabs (fsub v e)) e = Inr r"
    "check_series reference fn label = Inr es'" "es = (label, s, r) # es'"
    unfolding row by (auto simp: bind_exn_eq_Inr)
  then show ?case using Cons.IH[of es'] by (simp add: row)
qed

lemma rel_err_row:
  assumes v: "encl vl vu v" and e: "encl el eu e" and p: "0 < el"
    and s: "\<bar>vl - eu\<bar> < 2 ^ 53" "\<bar>vu - el\<bar> < 2 ^ 53"
    and b: "(vu - el) * 2 ^ 30 \<le> u * el" "(eu - vl) * 2 ^ 30 \<le> u * el" "0 \<le> u" "u < 2 ^ 53"
  shows "\<exists>r. fdiv (fabs (fsub v e)) e = Inr r \<and> encl 0 u r"
proof -
  define d where "d = max (vu - el) (eu - vl)"
  have 1: "encl (vl - eu) (vu - el) (fsub v e)"
    by (rule encl_sub[OF v e]) (use s in simp_all)
  have 2: "encl 0 d (fabs (fsub v e))"
    by (rule encl_abs[OF 1]) (simp_all add: d_def)
  have d: "d * 2 ^ 30 \<le> u * el" using b by (simp add: d_def max_def)
  show ?thesis
    by (rule encl_div[OF 2 e]) (use p d b in simp_all)
qed

lemma encl_not_special: "encl l u x \<Longrightarrow> x \<noteq> PInf \<and> x \<noteq> NInf \<and> x \<noteq> NaN"
  by (auto simp: encl_def)

lemma sum_fin_bounds:
  assumes "\<forall>x \<in> set xs. encl 0 u x"
  shows "0 \<le> sum_list (map fin_val xs) \<and> sum_list (map fin_val xs) \<le> of_nat (length xs) * (of_int u / 2 ^ 30)"
  using assms
proof (induction xs)
  case Nil
  then show ?case by simp
next
  case (Cons x xs)
  from Cons.prems have "encl 0 u x" by simp
  then obtain r where x: "x = Fin r" and r: "of_int 0 / 2 ^ 30 \<le> r" "r \<le> of_int u / 2 ^ 30"
    by (rule enclE)
  from Cons show ?case using r by (simp add: x algebra_simps)
qed

lemma fmean_encl:
  assumes ne: "xs \<noteq> []" and a: "\<forall>x \<in> set xs. encl 0 u x" and u: "0 \<le> u" "u < 2 ^ 50"
    and n: "length xs \<le> 8"
  shows "\<exists>mn. fmean xs = Inr mn \<and> encl 0 u mn"
proof -
  define n :: real where "n = of_nat (length xs)"
  define S where "S = sum_list (map fin_val xs)"
  define B :: real where "B = of_int u / 2 ^ 30"
  have n0: "0 < n" "n \<le> 8" using ne n by (simp_all add: n_def)
  have B0: "0 \<le> B" using u by (simp add: B_def)
  have S: "0 \<le> S" "S \<le> n * B" using sum_fin_bounds[OF a] by (simp_all add: S_def n_def B_def)
  have "n * B \<le> 8 * B" using n0 B0 by (intro mult_right_mono) auto
  then have S8: "S \<le> 8 * B" using S by linarith
  have d8: "rnd (of_int (8 * u) / 2 ^ 30) = of_int (8 * u) / 2 ^ 30"
    by (rule rnd_frac) (use u in simp_all)
  have "8 * B = of_int (8 * u) / 2 ^ 30" by (simp add: B_def)
  then have r8: "rnd S \<le> 8 * B" using rnd_le[OF _ d8, of S] S8 by simp
  have r0: "0 \<le> rnd S" using S by (intro rnd_nonneg)
  have "(of_int u :: real) < 2 ^ 50" using u by (metis of_int_less_numeral_power_cancel_iff)
  then have "B < 2 ^ 53" using u by (simp add: B_def field_simps)
  then have "8 * B < 2 ^ 1024" by (simp add: order_less_trans[where y = "8 * 2 ^ 53"])
  then have nov: "\<not> 2 ^ 1024 \<le> \<bar>rnd S\<bar>" using r8 r0 by linarith
  have ns: "PInf \<notin> set xs" "NInf \<notin> set xs" "NaN \<notin> set xs"
    using a encl_not_special by blast+
  have fs: "fsum xs = Inr (Fin (rnd S))"
    using ns nov by (simp add: fsum_def S_def Let_def)
  have q: "encl 0 u (ofl (rnd S / n))"
  proof (rule encl_ofl)
    show "of_int 0 / 2 ^ 30 \<le> rnd S / n" using r0 n0 by simp
    have "rnd S \<le> n * B \<or> True" by simp
    have "rnd S / n \<le> B"
    proof -
      have dn: "rnd (of_int (int (length xs) * u) / 2 ^ 30) = of_int (int (length xs) * u) / 2 ^ 30"
      proof (rule rnd_frac)
        have "int (length xs) * u \<le> 8 * u" using n u by (intro mult_right_mono) auto
        moreover have "0 \<le> int (length xs) * u" using u by simp
        ultimately show "\<bar>int (length xs) * u\<bar> < 2 ^ 53" using u by simp
      qed simp
      have "n * B = of_int (int (length xs) * u) / 2 ^ 30" by (simp add: n_def B_def)
      then have "rnd S \<le> n * B" using rnd_le[OF _ dn, of S] S by simp
      then show ?thesis using n0 by (simp add: field_simps)
    qed
    then show "rnd S / n \<le> of_int u / 2 ^ 30" by (simp add: B_def)
  qed (use u in simp_all)
  have "fmean xs = Inr (ofl (rnd S / n))"
    using ne n0 by (simp add: fmean_def fs n_def)
  then show ?thesis using q by blast
qed

lemma py_max_list_encl:
  assumes "xs \<noteq> []" "\<forall>x \<in> set xs. encl l u x"
  shows "\<exists>mx. py_max_list xs = Inr mx \<and> encl l u mx"
  using assms by (cases xs) (simp_all add: foldl_py_max_encl)

subsection \<open>The rows of the two series\<close>

lemma isco_zero: "isco_radius L (Fin 0) = Inr (Fin 6)"
  by (rule tiny_spin) simp

lemma encl_6: "encl (6 * 2 ^ 30) (6 * 2 ^ 30) (Fin 6)"
  using encl_int[of 6] by simp

lemma isco_row0:
  assumes L: "libm_acc L"
  shows "\<exists>r. bind_exn (isco_radius L (Fin (0))) (\<lambda>v. fdiv (fabs (fsub v (Fin (6)))) (Fin (6))) = Inr r
    \<and> encl 0 500000 r"
proof -
  have v: "isco_radius L (Fin 0) = Inr (Fin 6)" by (rule isco_zero)
  have "\<exists>r. fdiv (fabs (fsub (Fin 6) (Fin 6))) (Fin 6) = Inr r \<and> encl 0 500000 r"
    by (rule rel_err_row[OF encl_6 encl_6]) simp_all
  then show ?thesis by (simp only: v bind_exn_Inr)
qed

lemma isco_row1:
  assumes L: "libm_acc L"
  shows "\<exists>r. bind_exn (isco_radius L (Fin (1 / 2))) (\<lambda>v. fdiv (fabs (fsub v (Fin (rnd (4233 / 1000))))) (Fin (rnd (4233 / 1000)))) = Inr r
    \<and> encl 0 500000 r"
proof -
  from isco_half[OF L] obtain v where v: "isco_radius L (Fin (1 / 2)) = Inr v" and V: "encl 4545151823 4545151881 v"
    by blast
  have E: "encl 4545149140 4545149141 (Fin (rnd (4233 / 1000)))"
    by (rule encl_lit) simp_all
  have "\<exists>r. fdiv (fabs (fsub v (Fin (rnd (4233 / 1000))))) (Fin (rnd (4233 / 1000))) = Inr r \<and> encl 0 500000 r"
    by (rule rel_err_row[OF V E]) simp_all
  then show ?thesis by (simp only: v bind_exn_Inr)
qed

lemma isco_row2:
  assumes L: "libm_acc L"
  shows "\<exists>r. bind_exn (isco_radius L (Fin (rnd (9 / 10)))) (\<lambda>v. fdiv (fabs (fsub v (Fin (rnd (2320 / 1000))))) (Fin (rnd (2320 / 1000)))) = Inr r
    \<and> encl 0 500000 r"
proof -
  from isco_09[OF L] obtain v where v: "isco_radius L (Fin (rnd (9 / 10))) = Inr v" and V: "encl 2492029164 2492029217 v"
    by blast
  have E: "encl 2491081031 2491081032 (Fin (rnd (2320 / 1000)))"
    by (rule encl_lit) simp_all
  have "\<exists>r. fdiv (fabs (fsub v (Fin (rnd (2320 / 1000))))) (Fin (rnd (2320 / 1000))) = Inr r \<and> encl 0 500000 r"
    by (rule rel_err_row[OF V E]) simp_all
  then show ?thesis by (simp only: v bind_exn_Inr)
qed

lemma isco_row3:
  assumes L: "libm_acc L"
  shows "\<exists>r. bind_exn (isco_radius L (Fin (rnd (998 / 1000)))) (\<lambda>v. fdiv (fabs (fsub v (Fin (rnd (1237 / 1000))))) (Fin (rnd (1237 / 1000)))) = Inr r
    \<and> encl 0 500000 r"
proof -
  from isco_0998[OF L] obtain v where v: "isco_radius L (Fin (rnd (998 / 1000))) = Inr v" and V: "encl 1328187060 1328187201 v"
    by blast
  have E: "encl 1328218636 1328218637 (Fin (rnd (1237 / 1000)))"
    by (rule encl_lit) simp_all
  have "\<exists>r. fdiv (fabs (fsub v (Fin (rnd (1237 / 1000))))) (Fin (rnd (1237 / 1000))) = Inr r \<and> encl 0 500000 r"
    by (rule rel_err_row[OF V E]) simp_all
  then show ?thesis by (simp only: v bind_exn_Inr)
qed

lemma photon_row0:
  assumes L: "libm_acc L"
  shows "\<exists>r. bind_exn (photon_radius L (Fin (0))) (\<lambda>v. fdiv (fabs (fsub v (Fin (3)))) (Fin (3))) = Inr r
    \<and> encl 0 500000 r"
proof -
  from photon_0[OF L] obtain v where v: "photon_radius L (Fin (0)) = Inr v" and V: "encl 3221224196 3221224264 v"
    by blast
  have E: "encl 3221225472 3221225472 (Fin (3))"
    by (simp add: encl_Fin)
  have "\<exists>r. fdiv (fabs (fsub v (Fin (3)))) (Fin (3)) = Inr r \<and> encl 0 500000 r"
    by (rule rel_err_row[OF V E]) simp_all
  then show ?thesis by (simp only: v bind_exn_Inr)
qed

lemma photon_row1:
  assumes L: "libm_acc L"
  shows "\<exists>r. bind_exn (photon_radius L (Fin (1 / 2))) (\<lambda>v. fdiv (fabs (fsub v (Fin (rnd (23472963553 / 10 ^ 10))))) (Fin (rnd (23472963553 / 10 ^ 10)))) = Inr r
    \<and> encl 0 500000 r"
proof -
  from photon_half[OF L] obtain v where v: "photon_radius L (Fin (1 / 2)) = Inr v" and V: "encl 2520390238 2520390300 v"
    by blast
  have E: "encl 2520390270 2520390271 (Fin (rnd (23472963553 / 10 ^ 10)))"
    by (rule encl_lit) simp_all
  have "\<exists>r. fdiv (fabs (fsub v (Fin (rnd (23472963553 / 10 ^ 10))))) (Fin (rnd (23472963553 / 10 ^ 10))) = Inr r \<and> encl 0 500000 r"
    by (rule rel_err_row[OF V E]) simp_all
  then show ?thesis by (simp only: v bind_exn_Inr)
qed

lemma photon_row2:
  assumes L: "libm_acc L"
  shows "\<exists>r. bind_exn (photon_radius L (Fin (rnd (9 / 10)))) (\<lambda>v. fdiv (fabs (fsub v (Fin (rnd (15578546274 / 10 ^ 10))))) (Fin (rnd (15578546274 / 10 ^ 10)))) = Inr r
    \<and> encl 0 500000 r"
proof -
  from photon_09[OF L] obtain v where v: "photon_radius L (Fin (rnd (9 / 10))) = Inr v" and V: "encl 1672733644 1672733696 v"
    by blast
  have E: "encl 1672733669 1672733670 (Fin (rnd (15578546274 / 10 ^ 10)))"
    by (rule encl_lit) simp_all
  have "\<exists>r. fdiv (fabs (fsub v (Fin (rnd (15578546274 / 10 ^ 10))))) (Fin (rnd (15578546274 / 10 ^ 10))) = Inr r \<and> encl 0 500000 r"
    by (rule rel_err_row[OF V E]) simp_all
  then show ?thesis by (simp only: v bind_exn_Inr)
qed

lemma photon_row3:
  assumes L: "libm_acc L"
  shows "\<exists>r. bind_exn (photon_radius L (Fin (rnd (998 / 1000)))) (\<lambda>v. fdiv (fabs (fsub v (Fin (rnd (10739092577 / 10 ^ 10))))) (Fin (rnd (10739092577 / 10 ^ 10)))) = Inr r
    \<and> encl 0 500000 r"
proof -
  from photon_0998[OF L] obtain v where v: "photon_radius L (Fin (rnd (998 / 1000))) = Inr v" and V: "encl 1153101262 1153101306 v"
    by blast
  have E: "encl 1153101285 1153101286 (Fin (rnd (10739092577 / 10 ^ 10)))"
    by (rule encl_lit) simp_all
  have "\<exists>r. fdiv (fabs (fsub v (Fin (rnd (10739092577 / 10 ^ 10))))) (Fin (rnd (10739092577 / 10 ^ 10))) = Inr r \<and> encl 0 500000 r"
    by (rule rel_err_row[OF V E]) simp_all
  then show ?thesis by (simp only: v bind_exn_Inr)
qed

lemma isco_series:
  assumes L: "libm_acc L"
  shows "\<exists>r0 r1 r2 r3. check_series REFERENCE_ISCO (isco_radius L) label =
      Inr [(label, Fin (0), r0), (label, Fin (1 / 2), r1), (label, Fin (rnd (9 / 10)), r2), (label, Fin (rnd (998 / 1000)), r3)]
    \<and> encl 0 500000 r0 \<and> encl 0 500000 r1 \<and> encl 0 500000 r2 \<and> encl 0 500000 r3"
proof -
  from isco_row0[OF L] obtain r0 where r0: "bind_exn (isco_radius L (Fin (0))) (\<lambda>v. fdiv (fabs (fsub v (Fin (6)))) (Fin (6))) = Inr r0"
    and e0: "encl 0 500000 r0" by blast
  from isco_row1[OF L] obtain r1 where r1: "bind_exn (isco_radius L (Fin (1 / 2))) (\<lambda>v. fdiv (fabs (fsub v (Fin (rnd (4233 / 1000))))) (Fin (rnd (4233 / 1000)))) = Inr r1"
    and e1: "encl 0 500000 r1" by blast
  from isco_row2[OF L] obtain r2 where r2: "bind_exn (isco_radius L (Fin (rnd (9 / 10)))) (\<lambda>v. fdiv (fabs (fsub v (Fin (rnd (2320 / 1000))))) (Fin (rnd (2320 / 1000)))) = Inr r2"
    and e2: "encl 0 500000 r2" by blast
  from isco_row3[OF L] obtain r3 where r3: "bind_exn (isco_radius L (Fin (rnd (998 / 1000)))) (\<lambda>v. fdiv (fabs (fsub v (Fin (rnd (1237 / 1000))))) (Fin (rnd (1237 / 1000)))) = Inr r3"
    and e3: "encl 0 500000 r3" by blast
  have step: "\<And>s e rest. check_series ((s, e) # rest) (isco_radius L) label =
      bind_exn (bind_exn (isco_radius L s) (\<lambda>v. fdiv (fabs (fsub v e)) e)) (\<lambda>r.
      bind_exn (check_series rest (isco_radius L) label) (\<lambda>es. Inr ((label, s, r) # es)))"
    by (simp add: bind_exn_def split: sum.splits)
  have "check_series REFERENCE_ISCO (isco_radius L) label =
      Inr [(label, Fin (0), r0), (label, Fin (1 / 2), r1), (label, Fin (rnd (9 / 10)), r2), (label, Fin (rnd (998 / 1000)), r3)]"
    unfolding REFERENCE_ISCO_def step r0 r1 r2 r3 by simp
  then show ?thesis using e0 e1 e2 e3 by blast
qed

lemma photon_series:
  assumes L: "libm_acc L"
  shows "\<exists>r0 r1 r2 r3. check_series REFERENCE_PHOTON (photon_radius L) label =
      Inr [(label, Fin (0), r0), (label, Fin (1 / 2), r1), (label, Fin (rnd (9 / 10)), r2), (label, Fin (rnd (998 / 1000)), r3)]
    \<and> encl 0 500000 r0 \<and> encl 0 500000 r1 \<and> encl 0 500000 r2 \<and> encl 0 500000 r3"
proof -
  from photon_row0[OF L] obtain r0 where r0: "bind_exn (photon_radius L (Fin (0))) (\<lambda>v. fdiv (fabs (fsub v (Fin (3)))) (Fin (3))) = Inr r0"
    and e0: "encl 0 500000 r0" by blast
  from photon_row1[OF L] obtain r1 where r1: "bind_exn (photon_radius L (Fin (1 / 2))) (\<lambda>v. fdiv (fabs (fsub v (Fin (rnd (23472963553 / 10 ^ 10))))) (Fin (rnd (23472963553 / 10 ^ 10)))) = Inr r1"
    and e1: "encl 0 500000 r1" by blast
  from photon_row2[OF L] obtain r2 where r2: "bind_exn (photon_radius L (Fin (rnd (9 / 10)))) (\<lambda>v. fdiv (fabs (fsub v (Fin (rnd (15578546274 / 10 ^ 10))))) (Fin (rnd (15578546274 / 10 ^ 10)))) = Inr r2"
    and e2: "encl 0 500000 r2" by blast
  from photon_row3[OF L] obtain r3 where r3: "bind_exn (photon_radius L (Fin (rnd (998 / 1000)))) (\<lambda>v. fdiv (fabs (fsub v (Fin (rnd (10739092577 / 10 ^ 10))))) (Fin (rnd (10739092577 / 10 ^ 10)))) = Inr r3"
    and e3: "encl 0 500000 r3" by blast
  have step: "\<And>s e rest. check_series ((s, e) # rest) (photon_radius L) label =
      bind_exn (bind_exn (photon_radius L s) (\<lambda>v. fdiv (fabs (fsub v e)) e)) (\<lambda>r.
      bind_exn (check_series rest (photon_radius L) label) (\<lambda>es. Inr ((label, s, r) # es)))"
    by (simp add: bind_exn_def split: sum.splits)
  have "check_series REFERENCE_PHOTON (photon_radius L) label =
      Inr [(label, Fin (0), r0), (label, Fin (1 / 2), r1), (label, Fin (rnd (9 / 10)), r2), (label, Fin (rnd (998 / 1000)), r3)]"
    unfolding REFERENCE_PHOTON_def step r0 r1 r2 r3 by simp
  then show ?thesis using e0 e1 e2 e3 by blast
qed

subsection \<open>A run with an accurate C library\<close>

lemma libm_acc_cr_libm: "libm_acc cr_libm"
proof -
  have p: "\<bar>rnd (x powr third) - x powr third\<bar> \<le> 1 / 2 ^ 40" if "1 / 512 \<le> x" "x \<le> 2" for x
  proof -
    have "\<bar>x powr third - root 3 x\<bar> \<le> 1 / 2 ^ 44" using that by (rule powr_third_root)
    moreover have "root 3 x \<le> 2" using that by (intro root3_le) simp_all
    moreover have "0 \<le> root 3 x" using that by simp
    moreover have "(1 / 2 ^ 44 :: real) \<le> 1" by simp
    ultimately have "\<bar>x powr third\<bar> \<le> 4" by linarith
    then have "\<bar>rnd (x powr third) - x powr third\<bar> \<le> 1 / 2 ^ 51" by (rule rnd_err_le4)
    then show ?thesis by (rule order_trans) simp
  qed
  have a: "\<bar>rnd (arccos x) - arccos x\<bar> \<le> 1 / 2 ^ 40" if "\<bar>x\<bar> \<le> 1" for x
  proof -
    have "0 \<le> arccos x" "arccos x \<le> pi" using that arccos_bounded[of x] by auto
    then have "\<bar>arccos x\<bar> \<le> 4" using pi_less_4 by linarith
    then have "\<bar>rnd (arccos x) - arccos x\<bar> \<le> 1 / 2 ^ 51" by (rule rnd_err_le4)
    then show ?thesis by (rule order_trans) simp
  qed
  have c: "\<bar>rnd (cos x) - cos x\<bar> \<le> 1 / 2 ^ 40" for x :: real
  proof -
    have "\<bar>cos x\<bar> \<le> 1" by (rule abs_cos_le_one)
    then have "\<bar>cos x\<bar> \<le> 4" by linarith
    then have "\<bar>rnd (cos x) - cos x\<bar> \<le> 1 / 2 ^ 51" by (rule rnd_err_le4)
    then show ?thesis by (rule order_trans) simp
  qed
  show ?thesis unfolding libm_acc_def cr_libm_def using p a c by simp
qed

lemma run_checks_Inr:
  assumes "run_checks L mass out w = Inr (r, w')"
  shows "\<exists>g ie pe. gravitational_radius mass = Inr g
    \<and> check_series REFERENCE_ISCO (isco_radius L) ''isco'' = Inr ie
    \<and> check_series REFERENCE_PHOTON (photon_radius L) ''photon'' = Inr pe
    \<and> py_max_list (map (\<lambda>(_, _, err). err) (ie @ pe)) = Inr (max_rel_error r)
    \<and> fmean (map (\<lambda>(_, _, err). err) (ie @ pe)) = Inr (mean_rel_error r)
    \<and> mass_solar r = mass \<and> grav_radius_m r = g
    \<and> ok r = flt (max_rel_error r) (Fin (rnd (8 / 1000)))
    \<and> entries r = map (\<lambda>(label, sp, err). \<lparr>quantity = label, spin = sp, relative_error = err\<rparr>) (ie @ pe)
    \<and> w' = w\<lparr>files := (files w)(out \<mapsto> r)\<rparr>"
  using assms unfolding run_checks_def summarize_def Let_def
  by (auto simp: bind_exn_eq_Inr)

lemma run_checks_returns:
  assumes L: "libm_acc L"
  shows "\<exists>r w'. run_checks L mass out w = Inr (r, w') \<and> ok r
    \<and> list_all (\<lambda>e. encl 0 500000 (relative_error e)) (entries r)
    \<and> encl 0 500000 (max_rel_error r) \<and> encl 0 500000 (mean_rel_error r)"
proof -
  obtain g where g: "gravitational_radius mass = Inr g"
    using gravitational_radius_returns by blast
  from isco_series[OF L, of "''isco''"] obtain a0 a1 a2 a3 where
    ie: "check_series REFERENCE_ISCO (isco_radius L) ''isco'' =
      Inr [(''isco'', Fin 0, a0), (''isco'', Fin (1 / 2), a1), (''isco'', Fin (rnd (9 / 10)), a2),
           (''isco'', Fin (rnd (998 / 1000)), a3)]"
    and ea: "encl 0 500000 a0" "encl 0 500000 a1" "encl 0 500000 a2" "encl 0 500000 a3"
    by blast
  from photon_series[OF L, of "''photon''"] obtain b0 b1 b2 b3 where
    pe: "check_series REFERENCE_PHOTON (photon_radius L) ''photon'' =
      Inr [(''photon'', Fin 0, b0), (''photon'', Fin (1 / 2), b1), (''photon'', Fin (rnd (9 / 10)), b2),
           (''photon'', Fin (rnd (998 / 1000)), b3)]"
    and eb: "encl 0 500000 b0" "encl 0 500000 b1" "encl 0 500000 b2" "encl 0 500000 b3"
    by blast
  define xs where "xs = [a0, a1, a2, a3, b0, b1, b2, b3]"
  have all: "\<forall>x \<in> set xs. encl 0 500000 x" using ea eb by (simp add: xs_def)
  have ne: "xs \<noteq> []" by (simp add: xs_def)
  from py_max_list_encl[OF ne all] obtain mx where mx: "py_max_list xs = Inr mx" and emx: "encl 0 500000 mx"
    by blast
  have "\<exists>mn. fmean xs = Inr mn \<and> encl 0 500000 mn"
    by (rule fmean_encl[OF ne all]) (simp_all add: xs_def)
  then obtain mn where mn: "fmean xs = Inr mn" and emn: "encl 0 500000 mn" by blast
  from emx obtain m where m: "mx = Fin m" and mb: "m \<le> of_int 500000 / 2 ^ 30" by (rule enclE)
  have "of_int 500000 / 2 ^ 30 < (8589934 / 2 ^ 30 :: real)" by simp
  then have "m < rnd (8 / 1000)" using mb thr_ge by linarith
  then have okk: "flt mx (Fin (rnd (8 / 1000)))" by (simp add: m)
  have "run_checks L mass out w = Inr
    (\<lparr>max_rel_error = mx, mean_rel_error = mn, mass_solar = mass, grav_radius_m = g, ok = True,
      entries = map (\<lambda>(label, sp, err). \<lparr>quantity = label, spin = sp, relative_error = err\<rparr>)
        [(''isco'', Fin 0, a0), (''isco'', Fin (1 / 2), a1), (''isco'', Fin (rnd (9 / 10)), a2),
         (''isco'', Fin (rnd (998 / 1000)), a3),
         (''photon'', Fin 0, b0), (''photon'', Fin (1 / 2), b1), (''photon'', Fin (rnd (9 / 10)), b2),
         (''photon'', Fin (rnd (998 / 1000)), b3)]\<rparr>,
     w\<lparr>files := (files w)(out \<mapsto> \<lparr>max_rel_error = mx, mean_rel_error = mn, mass_solar = mass,
      grav_radius_m = g, ok = True,
      entries = map (\<lambda>(label, sp, err). \<lparr>quantity = label, spin = sp, relative_error = err\<rparr>)
        [(''isco'', Fin 0, a0), (''isco'', Fin (1 / 2), a1), (''isco'', Fin (rnd (9 / 10)), a2),
         (''isco'', Fin (rnd (998 / 1000)), a3),
         (''photon'', Fin 0, b0), (''photon'', Fin (1 / 2), b1), (''photon'', Fin (rnd (9 / 10)), b2),
         (''photon'', Fin (rnd (998 / 1000)), b3)]\<rparr>)\<rparr>)"
    using mx mn okk unfolding run_checks_def summarize_def Let_def g ie pe xs_def
    by (simp del: py_max_list.simps)
  then show ?thesis using ea eb emx emn by auto
qed

subsection \<open>Relative errors of the computed radii\<close>

lemma encl_Fin_ex: "encl l u v \<Longrightarrow> \<exists>x. v = Fin x"
  by (erule enclE) simp

lemma within_tolerance:
  assumes "f = Inr v" "encl vl vu v" "encl el eu (Fin x)" "0 < el"
    "1000 * (vu - el) < 8 * el" "1000 * (eu - vl) < 8 * el"
  shows "\<exists>y. f = Inr (Fin y) \<and> \<bar>y - x\<bar> / x < 8 / 1000"
proof -
  from assms(2) obtain y where y: "v = Fin y" by (auto dest: encl_Fin_ex)
  have "\<bar>y - x\<bar> / x < 8 / 1000"
    by (rule rel_err_bound[OF assms(2)[unfolded y] assms(3-6)])
  then show ?thesis using assms(1) y by simp
qed

lemma isco_values:
  assumes L: "libm_acc L"
  shows "\<exists>y. isco_radius L (Fin 0) = Inr (Fin y) \<and> \<bar>y - 6\<bar> / 6 < 8 / 1000"
    and "\<exists>y. isco_radius L (Fin (1 / 2)) = Inr (Fin y) \<and> \<bar>y - rnd (4233 / 1000)\<bar> / rnd (4233 / 1000) < 8 / 1000"
    and "\<exists>y. isco_radius L (Fin (rnd (9 / 10))) = Inr (Fin y) \<and> \<bar>y - rnd (2320 / 1000)\<bar> / rnd (2320 / 1000) < 8 / 1000"
    and "\<exists>y. isco_radius L (Fin (rnd (998 / 1000))) = Inr (Fin y) \<and> \<bar>y - rnd (1237 / 1000)\<bar> / rnd (1237 / 1000) < 8 / 1000"
proof -
  show "\<exists>y. isco_radius L (Fin 0) = Inr (Fin y) \<and> \<bar>y - 6\<bar> / 6 < 8 / 1000"
    by (simp add: isco_zero)
  from isco_half[OF L] obtain v where v: "isco_radius L (Fin (1 / 2)) = Inr v" "encl 4545151823 4545151881 v"
    by blast
  show "\<exists>y. isco_radius L (Fin (1 / 2)) = Inr (Fin y) \<and> \<bar>y - rnd (4233 / 1000)\<bar> / rnd (4233 / 1000) < 8 / 1000"
    by (rule within_tolerance[OF v, where el = 4545149140 and eu = 4545149141]) (rule encl_lit, simp_all)
  from isco_09[OF L] obtain v where v: "isco_radius L (Fin (rnd (9 / 10))) = Inr v" "encl 2492029164 2492029217 v"
    by blast
  show "\<exists>y. isco_radius L (Fin (rnd (9 / 10))) = Inr (Fin y) \<and> \<bar>y - rnd (2320 / 1000)\<bar> / rnd (2320 / 1000) < 8 / 1000"
    by (rule within_tolerance[OF v, where el = 2491081031 and eu = 2491081032]) (rule encl_lit, simp_all)
  from isco_0998[OF L] obtain v where v: "isco_radius L (Fin (rnd (998 / 1000))) = Inr v" "encl 1328187060 1328187201 v"
    by blast
  show "\<exists>y. isco_radius L (Fin (rnd (998 / 1000))) = Inr (Fin y) \<and> \<bar>y - rnd (1237 / 1000)\<bar> / rnd (1237 / 1000) < 8 / 1000"
    by (rule within_tolerance[OF v, where el = 1328218636 and eu = 1328218637]) (rule encl_lit, simp_all)
qed

lemma photon_values:
  assumes L: "libm_acc L"
  shows "\<exists>y. photon_radius L (Fin (0)) = Inr (Fin y) \<and> \<bar>y - 3\<bar> / 3 < 8 / 1000"
    and "\<exists>y. photon_radius L (Fin (1 / 2)) = Inr (Fin y) \<and> \<bar>y - rnd (23472963553 / 10 ^ 10)\<bar> / rnd (23472963553 / 10 ^ 10) < 8 / 1000"
    and "\<exists>y. photon_radius L (Fin (rnd (9 / 10))) = Inr (Fin y) \<and> \<bar>y - rnd (15578546274 / 10 ^ 10)\<bar> / rnd (15578546274 / 10 ^ 10) < 8 / 1000"
    and "\<exists>y. photon_radius L (Fin (rnd (998 / 1000))) = Inr (Fin y) \<and> \<bar>y - rnd (10739092577 / 10 ^ 10)\<bar> / rnd (10739092577 / 10 ^ 10) < 8 / 1000"
proof -
  from photon_0[OF L] obtain v where v: "photon_radius L (Fin (0)) = Inr v" "encl 3221224196 3221224264 v"
    by blast
  show "\<exists>y. photon_radius L (Fin (0)) = Inr (Fin y) \<and> \<bar>y - 3\<bar> / 3 < 8 / 1000"
    by (rule within_tolerance[OF v, where el = 3221225472 and eu = 3221225472]) (simp_all add: encl_Fin)
  from photon_half[OF L] obtain v where v: "photon_radius L (Fin (1 / 2)) = Inr v" "encl 2520390238 2520390300 v"
    by blast
  show "\<exists>y. photon_radius L (Fin (1 / 2)) = Inr (Fin y) \<and> \<bar>y - rnd (23472963553 / 10 ^ 10)\<bar> / rnd (23472963553 / 10 ^ 10) < 8 / 1000"
    by (rule within_tolerance[OF v, where el = 2520390270 and eu = 2520390271]) (rule encl_lit, simp_all)
  from photon_09[OF L] obtain v where v: "photon_radius L (Fin (rnd (9 / 10))) = Inr v" "encl 1672733644 1672733696 v"
    by blast
  show "\<exists>y. photon_radius L (Fin (rnd (9 / 10))) = Inr (Fin y) \<and> \<bar>y - rnd (15578546274 / 10 ^ 10)\<bar> / rnd (15578546274 / 10 ^ 10) < 8 / 1000"
    by (rule within_tolerance[OF v, where el = 1672733669 and eu = 1672733670]) (rule encl_lit, simp_all)
  from photon_0998[OF L] obtain v where v: "photon_radius L (Fin (rnd (998 / 1000))) = Inr v" "encl 1153101262 1153101306 v"
    by blast
  show "\<exists>y. photon_radius L (Fin (rnd (998 / 1000))) = Inr (Fin y) \<and> \<bar>y - rnd (10739092577 / 10 ^ 10)\<bar> / rnd (10739092577 / 10 ^ 10) < 8 / 1000"
    by (rule within_tolerance[OF v, where el = 1153101285 and eu = 1153101286]) (rule encl_lit, simp_all)
qed

subsection \<open>Saturation and maxima\<close>

lemma clamp_saturates:
  assumes "fge s (Fin (rnd (998 / 1000)))"
  shows "py_max (py_min s (Fin (rnd (998 / 1000)))) (Fin (- rnd (998 / 1000))) = Fin (rnd (998 / 1000))"
proof -
  have p: "0 < rnd (998 / 1000)" using c998_bounds(1) by linarith
  show ?thesis using assms p
    by (cases s) (auto simp: fge_def is_nan_def py_min_def py_max_def)
qed

lemma py_max_no_nan:
  assumes "\<not> is_nan a" "\<not> is_nan b"
  shows "\<not> is_nan (py_max a b)" and "flt (py_max a b) (Fin c) \<longleftrightarrow> flt a (Fin c) \<and> flt b (Fin c)"
  using assms by (cases a; cases b; auto simp: py_max_def is_nan_def)+

lemma foldl_py_max_no_nan:
  assumes "\<not> is_nan x" "\<forall>y \<in> set xs. \<not> is_nan y"
  shows "\<not> is_nan (foldl py_max x xs)
    \<and> (flt (foldl py_max x xs) (Fin c) \<longleftrightarrow> flt x (Fin c) \<and> (\<forall>y \<in> set xs. flt y (Fin c)))"
  using assms
proof (induction xs arbitrary: x)
  case Nil
  then show ?case by simp
next
  case (Cons y ys)
  have n: "\<not> is_nan (py_max x y)" using Cons.prems by (simp add: py_max_no_nan(1))
  have "\<forall>z \<in> set ys. \<not> is_nan z" using Cons.prems by simp
  from Cons.IH[OF n this] show ?case
    using Cons.prems by (auto simp: py_max_no_nan(2))
qed

lemma py_max_list_lt:
  assumes "py_max_list xs = Inr mx" "\<forall>y \<in> set xs. \<not> is_nan y"
  shows "flt mx (Fin c) \<longleftrightarrow> (\<forall>y \<in> set xs. flt y (Fin c))"
proof (cases xs)
  case Nil
  then show ?thesis using assms by simp
next
  case (Cons x ys)
  then have "mx = foldl py_max x ys" using assms(1) by simp
  then show ?thesis using foldl_py_max_no_nan[of x ys c] assms(2) Cons by simp
qed

lemma encl_not_nan: "encl l u x \<Longrightarrow> \<not> is_nan x"
  by (cases x) (auto simp: encl_def is_nan_def)

lemma run_checks_InrE:
  assumes "run_checks L mass out w = Inr (r, w')"
  obtains g ie pe where "gravitational_radius mass = Inr g"
    and "check_series REFERENCE_ISCO (isco_radius L) ''isco'' = Inr ie"
    and "check_series REFERENCE_PHOTON (photon_radius L) ''photon'' = Inr pe"
    and "py_max_list (map (\<lambda>(_, _, err). err) (ie @ pe)) = Inr (max_rel_error r)"
    and "ok r = flt (max_rel_error r) (Fin (rnd (8 / 1000)))"
    and "entries r = map (\<lambda>(label, sp, err). \<lparr>quantity = label, spin = sp, relative_error = err\<rparr>) (ie @ pe)"
    and "w' = w\<lparr>files := (files w)(out \<mapsto> r)\<rparr>"
proof -
  from run_checks_Inr[OF assms] obtain g ie pe where
    "gravitational_radius mass = Inr g
    \<and> check_series REFERENCE_ISCO (isco_radius L) ''isco'' = Inr ie
    \<and> check_series REFERENCE_PHOTON (photon_radius L) ''photon'' = Inr pe
    \<and> py_max_list (map (\<lambda>(_, _, err). err) (ie @ pe)) = Inr (max_rel_error r)
    \<and> fmean (map (\<lambda>(_, _, err). err) (ie @ pe)) = Inr (mean_rel_error r)
    \<and> mass_solar r = mass \<and> grav_radius_m r = g
    \<and> ok r = flt (max_rel_error r) (Fin (rnd (8 / 1000)))
    \<and> entries r = map (\<lambda>(label, sp, err). \<lparr>quantity = label, spin = sp, relative_error = err\<rparr>) (ie @ pe)
    \<and> w' = w\<lparr>files := (files w)(out \<mapsto> r)\<rparr>"
    by (elim exE)
  then show ?thesis using that by (elim conjE) blast
qed

subsection \<open>The format of the verdict line\<close>

lemma digit_chars:
  "digit 0 = CHR ''0''" "digit 1 = CHR ''1''" "digit 2 = CHR ''2''" "digit 3 = CHR ''3''"
  "digit 4 = CHR ''4''" "digit 5 = CHR ''5''" "digit 6 = CHR ''6''" "digit 7 = CHR ''7''"
  "digit 8 = CHR ''8''" "digit 9 = CHR ''9''"
  by (simp_all add: digit_def char_of_def)

lemma sci_4e_pos:
  assumes "0 < x"
  shows "\<exists>m e. 10000 \<le> m \<and> m \<le> 99999
    \<and> sci_4e x = [digit (m div 10000), CHR ''.'', digit (m div 1000 mod 10),
                   digit (m div 100 mod 10), digit (m div 10 mod 10), digit (m mod 10)]
                  @ ''e'' @ (if e < 0 then ''-'' else ''+'') @ exp_digits \<bar>e\<bar>
    \<and> \<bar>x - of_int m * 10 powr (of_int e - 4)\<bar> \<le> 10 powr (of_int e - 4) / 2"
proof -
  define e0 where "e0 = \<lfloor>log 10 x\<rfloor>"
  define u where "u = (10::real) powr (of_int e0 - 4)"
  define m0 where "m0 = rne (x / u)"
  have u0: "0 < u" by (simp add: u_def)
  have "of_int e0 \<le> log 10 x" "log 10 x < of_int e0 + 1" unfolding e0_def by linarith+
  then have b: "10 powr (of_int e0) \<le> x" "x < 10 powr (of_int e0 + 1)"
    using assms by (simp_all add: le_log_iff log_less_iff)
  have p1: "10 powr (of_int e0) = 10000 * u" unfolding u_def by (simp add: powr_diff)
  have p2: "10 powr (of_int e0 + 1) = 100000 * u" unfolding u_def by (simp add: powr_diff powr_add)
  have q: "of_int 10000 \<le> x / u" "x / u \<le> of_int 100000"
    using b u0 unfolding p1 p2 by (simp_all add: field_simps)
  have "rne (of_int 10000) \<le> rne (x / u)" using q(1) by (rule rne_mono)
  then have m_lo: "10000 \<le> m0" unfolding rne_of_int m0_def .
  have "rne (x / u) \<le> rne (of_int 100000)" using q(2) by (rule rne_mono)
  then have m_hi: "m0 \<le> 100000" unfolding rne_of_int m0_def .
  have "\<bar>of_int m0 - x / u\<bar> \<le> 1/2" unfolding m0_def by (rule rne_err)
  then have "\<bar>of_int m0 - x / u\<bar> * u \<le> 1/2 * u" using u0 by (intro mult_right_mono) auto
  moreover have "\<bar>of_int m0 - x / u\<bar> * u = \<bar>x - of_int m0 * u\<bar>"
  proof -
    have "\<bar>of_int m0 - x / u\<bar> * u = \<bar>(of_int m0 - x / u) * u\<bar>" using u0 by (simp add: abs_mult)
    also have "(of_int m0 - x / u) * u = of_int m0 * u - x" using u0 by (simp add: field_simps)
    finally show ?thesis by (simp add: abs_minus_commute)
  qed
  ultimately have err: "\<bar>x - of_int m0 * u\<bar> \<le> u / 2" by simp
  have s: "sci_4e x =
    (let e' = (if 100000 \<le> m0 then e0 + 1 else e0);
         m' = (if 100000 \<le> m0 then m0 div 10 else m0)
     in [digit (m' div 10000), CHR ''.'', digit (m' div 1000 mod 10),
         digit (m' div 100 mod 10), digit (m' div 10 mod 10), digit (m' mod 10)]
        @ ''e'' @ (if e' < 0 then ''-'' else ''+'') @ exp_digits \<bar>e'\<bar>)"
    using assms unfolding sci_4e_def Let_def e0_def u_def m0_def by simp
  show ?thesis
  proof (cases "100000 \<le> m0")
    case True
    then have m: "m0 = 100000" using m_hi by simp
    have u1: "(10::real) powr (of_int (e0 + 1) - 4) = 10 * u"
      unfolding u_def by (simp add: powr_diff powr_add)
    have "\<bar>x - of_int 10000 * (10 * u)\<bar> \<le> (10 * u) / 2" using err u0 unfolding m by simp
    then have e: "\<bar>x - of_int 10000 * 10 powr (of_int (e0 + 1) - 4)\<bar> \<le> 10 powr (of_int (e0 + 1) - 4) / 2"
      unfolding u1 .
    have s': "sci_4e x = [digit (10000 div 10000), CHR ''.'', digit (10000 div 1000 mod 10),
         digit (10000 div 100 mod 10), digit (10000 div 10 mod 10), digit (10000 mod 10)]
        @ ''e'' @ (if e0 + 1 < 0 then ''-'' else ''+'') @ exp_digits \<bar>e0 + 1\<bar>"
      unfolding s m by simp
    show ?thesis
      by (rule exI[of _ 10000], rule exI[of _ "e0 + 1"]) (use s' e in simp)
  next
    case False
    then have m: "m0 \<le> 99999" by simp
    have s': "sci_4e x = [digit (m0 div 10000), CHR ''.'', digit (m0 div 1000 mod 10),
         digit (m0 div 100 mod 10), digit (m0 div 10 mod 10), digit (m0 mod 10)]
        @ ''e'' @ (if e0 < 0 then ''-'' else ''+'') @ exp_digits \<bar>e0\<bar>"
      unfolding s using False by simp
    show ?thesis
      by (rule exI[of _ m0], rule exI[of _ e0]) (use s' m m_lo err in \<open>simp add: u_def\<close>)
  qed
qed

lemma fmt_4e_nonneg:
  assumes "0 \<le> x"
  shows "\<exists>m e. 0 \<le> m \<and> m \<le> 99999 \<and> (x = 0 \<or> 10000 \<le> m)
    \<and> fmt_4e (Fin x) = [digit (m div 10000), CHR ''.'', digit (m div 1000 mod 10),
                   digit (m div 100 mod 10), digit (m div 10 mod 10), digit (m mod 10)]
                  @ ''e'' @ (if e < 0 then ''-'' else ''+'') @ exp_digits \<bar>e\<bar>
    \<and> \<bar>x - of_int m * 10 powr (of_int e - 4)\<bar> \<le> 10 powr (of_int e - 4) / 2"
proof (cases "x = 0")
  case True
  show ?thesis
    by (rule exI[of _ 0], rule exI[of _ 0]) (simp add: True sci_4e_def digit_chars exp_digits_def)
next
  case False
  then have "0 < x" using assms by simp
  from sci_4e_pos[OF this] obtain m e where
    "10000 \<le> m" "m \<le> 99999"
    "sci_4e x = [digit (m div 10000), CHR ''.'', digit (m div 1000 mod 10),
                   digit (m div 100 mod 10), digit (m div 10 mod 10), digit (m mod 10)]
                  @ ''e'' @ (if e < 0 then ''-'' else ''+'') @ exp_digits \<bar>e\<bar>"
    "\<bar>x - of_int m * 10 powr (of_int e - 4)\<bar> \<le> 10 powr (of_int e - 4) / 2" by blast
  then show ?thesis using assms
    by (intro exI[of _ m] exI[of _ e]) simp
qed

lemma fmt_4e_128: "fmt_4e (Fin (1 / 128)) = ''7.8125e-03''"
proof -
  have l: "\<lfloor>log 10 (1 / 128 :: real)\<rfloor> = - 3"
  proof (rule floor_unique)
    have "10 powr (of_int (- 3)) \<le> (1 / 128 :: real)" by (simp add: powr_minus)
    then show "of_int (- 3) \<le> log 10 (1 / 128 :: real)" by (subst le_log_iff) simp_all
    have "(1 / 128 :: real) < 10 powr (of_int (- 3) + 1)" by (simp add: powr_minus)
    then show "log 10 (1 / 128 :: real) < of_int (- 3) + 1" by (subst log_less_iff) simp_all
  qed
  have "(1 / 128 :: real) / 10 powr (of_int (- 3) - 4) = of_int 78125"
    by (simp add: powr_minus)
  then have r: "rne ((1 / 128 :: real) / 10 powr (of_int (- 3) - 4)) = 78125"
    by (simp only: rne_of_int)
  show ?thesis
    unfolding fmt_4e.simps sci_4e_def Let_def l r
    by (simp add: digit_chars exp_digits_def)
qed

lemma main_Inr:
  assumes "main L mass out w = Inr (st, w')"
  shows "\<exists>r w1. run_checks L mass out w = Inr (r, w1) \<and> st = (if ok r then 0 else 1)
     \<and> w' = w1\<lparr>stdout := stdout w1 @ [verdict_line r]\<rparr> \<and> stdout w1 = stdout w"
proof -
  from assms obtain r w1 where rc: "run_checks L mass out w = Inr (r, w1)"
    and m: "Inr (if ok r then 0 else 1, w1\<lparr>stdout := stdout w1 @ [verdict_line r]\<rparr>) = (Inr (st, w') :: exn + int \<times> world)"
    unfolding main_def bind_exn_eq_Inr by (auto split: prod.splits)
  from rc have "w1 = w\<lparr>files := (files w)(out \<mapsto> r)\<rparr>" by (rule run_checks_InrE)
  then have "stdout w1 = stdout w" by simp
  with rc m show ?thesis by (intro exI[of _ r] exI[of _ w1]) simp
qed

lemma verdict_line_eq:
  "verdict_line r = ''['' @ (if ok r then ''PASS'' else ''FAIL'') @ ''] max_rel_error=''
     @ fmt_4e (max_rel_error r) @ '' mean_rel_error='' @ fmt_4e (mean_rel_error r)"
  by (simp add: verdict_line_def)

section \<open>The claims\<close>

section \<open>The empty summary\<close>

text \<open>
  C8: \<^verbatim>\<open>summarize\<close> applied to the empty list of error entries does not fail with a
  division by zero in the mean: it raises \<^verbatim>\<open>ValueError\<close>, from \<^verbatim>\<open>max\<close>, which is evaluated
  before the mean; and \<^verbatim>\<open>fmean\<close> of the empty list on its own raises
  \<^verbatim>\<open>StatisticsError\<close>, not \<^verbatim>\<open>ZeroDivisionError\<close>.
\<close>

theorem summarize_empty:
  "summarize [] = Inl ValueError \<and> summarize [] \<noteq> Inl ZeroDivisionError
     \<and> fmean [] = Inl StatisticsError"
  by (simp add: summarize_def fmean_def fsum_def bind_exn_def rnd_def rne_def)

text \<open>
  C1: with a C library of the assumed accuracy, for every row of the ISCO reference table
  \<^verbatim>\<open>isco_radius\<close> returns a finite value whose relative error against the expected value
  is below 0.8 percent, and likewise \<^verbatim>\<open>photon_radius\<close> for every row of the photon
  reference table (spins 0.0, 0.5, 0.9, 0.998).
\<close>

theorem reference_values_within_tolerance:
  assumes "libm_acc L"
  shows "list_all (\<lambda>(s, e). \<exists>y x. isco_radius L s = Inr (Fin y) \<and> e = Fin x \<and> \<bar>y - x\<bar> / x < 8 / 1000)
           REFERENCE_ISCO
       \<and> list_all (\<lambda>(s, e). \<exists>y x. photon_radius L s = Inr (Fin y) \<and> e = Fin x \<and> \<bar>y - x\<bar> / x < 8 / 1000)
           REFERENCE_PHOTON"
  unfolding REFERENCE_ISCO_def REFERENCE_PHOTON_def
  using isco_values[OF assms] photon_values[OF assms] by simp

theorem reference_values_within_tolerance_witness:
  "libm_acc cr_libm
   \<and> list_all (\<lambda>(s, e). \<exists>y x. isco_radius cr_libm s = Inr (Fin y) \<and> e = Fin x \<and> \<bar>y - x\<bar> / x < 8 / 1000)
           REFERENCE_ISCO
   \<and> list_all (\<lambda>(s, e). \<exists>y x. photon_radius cr_libm s = Inr (Fin y) \<and> e = Fin x \<and> \<bar>y - x\<bar> / x < 8 / 1000)
           REFERENCE_PHOTON"
  using reference_values_within_tolerance[OF libm_acc_cr_libm] libm_acc_cr_libm by simp

text \<open>
  C2: in the report of \<^verbatim>\<open>run_checks\<close> the field \<^verbatim>\<open>ok\<close> is true exactly when
  \<^verbatim>\<open>max_rel_error < 8e-3\<close>, and \<^verbatim>\<open>main\<close> returns the exit status 0 when \<^verbatim>\<open>ok\<close> is true
  and 1 when it is false (after printing the verdict line).
\<close>

theorem ok_and_exit_status:
  assumes "run_checks L mass out w = Inr (r, w')"
  shows "ok r = flt (max_rel_error r) (Fin (rnd (8 / 1000)))
       \<and> main L mass out w = Inr (if ok r then 0 else 1, w'\<lparr>stdout := stdout w' @ [verdict_line r]\<rparr>)"
  using run_checks_Inr[OF assms] assms by (auto simp: main_def)

theorem ok_and_exit_status_witness:
  "\<exists>r w'. run_checks cr_libm (Fin 650000000) ''validation_report.json'' world0 = Inr (r, w')
     \<and> ok r \<and> flt (max_rel_error r) (Fin (rnd (8 / 1000)))
     \<and> main cr_libm (Fin 650000000) ''validation_report.json'' world0
         = Inr (0, w'\<lparr>stdout := stdout w' @ [verdict_line r]\<rparr>)"
proof -
  from run_checks_returns[OF libm_acc_cr_libm]
  obtain r w' where r: "run_checks cr_libm (Fin 650000000) ''validation_report.json'' world0 = Inr (r, w')"
    and k: "ok r" by blast
  from ok_and_exit_status[OF r] k r show ?thesis by auto
qed

text \<open>
  C5: for every spin greater than or equal to 0.998 (1.5 and infinity included)
  \<^verbatim>\<open>isco_radius\<close> returns exactly what it returns at 0.998, and that is a finite value:
  no exception is raised.
\<close>

theorem isco_radius_saturates:
  assumes "libm_acc L" "fge s (Fin (rnd (998 / 1000)))"
  shows "isco_radius L s = isco_radius L (Fin (rnd (998 / 1000)))
       \<and> (\<exists>v. isco_radius L s = Inr (Fin v))"
proof -
  have g0: "fge (Fin (rnd (998 / 1000))) (Fin (rnd (998 / 1000)))" by (simp add: fge_def is_nan_def)
  have eq: "isco_radius L s = isco_radius L (Fin (rnd (998 / 1000)))"
    unfolding isco_radius_def clamp_saturates[OF assms(2)] clamp_saturates[OF g0] ..
  from isco_0998[OF assms(1)] obtain v where "isco_radius L (Fin (rnd (998 / 1000))) = Inr v"
    "encl 1328187060 1328187201 v" by blast
  then have "\<exists>x. isco_radius L (Fin (rnd (998 / 1000))) = Inr (Fin x)" by (auto dest: encl_Fin_ex)
  with eq show ?thesis by simp
qed

theorem isco_radius_saturates_witness:
  "libm_acc cr_libm \<and> fge (Fin (3 / 2)) (Fin (rnd (998 / 1000)))
   \<and> isco_radius cr_libm (Fin (3 / 2)) = isco_radius cr_libm (Fin (rnd (998 / 1000)))
   \<and> (\<exists>v. isco_radius cr_libm (Fin (3 / 2)) = Inr (Fin v))"
proof -
  have g: "fge (Fin (3 / 2)) (Fin (rnd (998 / 1000)))"
    using c998_bounds(2) by (simp add: fge_def is_nan_def)
  show ?thesis
    by (intro conjI libm_acc_cr_libm g conjunct1[OF isco_radius_saturates[OF libm_acc_cr_libm g]]
        conjunct2[OF isco_radius_saturates[OF libm_acc_cr_libm g]])
qed

text \<open>
  C6: in every report of \<^verbatim>\<open>run_checks\<close> the entries with quantity \<^verbatim>\<open>isco\<close> come before
  those with quantity \<^verbatim>\<open>photon\<close>, and each group lists the spins in the order of its
  reference table: 0.0, 0.5, 0.9, 0.998.
\<close>

theorem entries_order:
  assumes "run_checks L mass out w = Inr (r, w')"
  shows "map quantity (entries r) =
           [''isco'', ''isco'', ''isco'', ''isco'', ''photon'', ''photon'', ''photon'', ''photon'']
       \<and> map spin (entries r) =
           [Fin 0, Fin (1 / 2), Fin (rnd (9 / 10)), Fin (rnd (998 / 1000)),
            Fin 0, Fin (1 / 2), Fin (rnd (9 / 10)), Fin (rnd (998 / 1000))]"
proof -
  from assms obtain ie pe where
    ie: "check_series REFERENCE_ISCO (isco_radius L) ''isco'' = Inr ie"
    and pe: "check_series REFERENCE_PHOTON (photon_radius L) ''photon'' = Inr pe"
    and en: "entries r = map (\<lambda>(label, sp, err). \<lparr>quantity = label, spin = sp, relative_error = err\<rparr>) (ie @ pe)"
    by (rule run_checks_InrE)
  have q: "map quantity (entries r) = map fst ie @ map fst pe"
    and s: "map spin (entries r) = map (fst \<circ> snd) ie @ map (fst \<circ> snd) pe"
    unfolding en by (simp_all add: case_prod_beta comp_def)
  show ?thesis
    unfolding q s using check_series_shape[OF ie] check_series_shape[OF pe]
    by (simp add: REFERENCE_ISCO_def REFERENCE_PHOTON_def numeral_eq_Suc)
qed

theorem entries_order_witness:
  "\<exists>r w'. run_checks cr_libm (Fin 650000000) ''validation_report.json'' world0 = Inr (r, w')
     \<and> map quantity (entries r) =
           [''isco'', ''isco'', ''isco'', ''isco'', ''photon'', ''photon'', ''photon'', ''photon'']
     \<and> map spin (entries r) =
           [Fin 0, Fin (1 / 2), Fin (rnd (9 / 10)), Fin (rnd (998 / 1000)),
            Fin 0, Fin (1 / 2), Fin (rnd (9 / 10)), Fin (rnd (998 / 1000))]"
proof -
  from run_checks_returns[OF libm_acc_cr_libm]
  obtain r w' where r: "run_checks cr_libm (Fin 650000000) ''validation_report.json'' world0 = Inr (r, w')"
    by blast
  show ?thesis
    by (intro exI[of _ r] exI[of _ w'] conjI r conjunct1[OF entries_order[OF r]]
        conjunct2[OF entries_order[OF r]])
qed

text \<open>
  C9: whatever the mass and the output path, a report of \<^verbatim>\<open>run_checks\<close> has exactly
  eight entries, four with quantity \<^verbatim>\<open>isco\<close> and four with quantity \<^verbatim>\<open>photon\<close>, one for
  each row of the two reference tables; the entries of two reports (any two masses, paths
  and worlds) are the same.
\<close>

theorem report_has_eight_entries:
  assumes "run_checks L mass out w = Inr (r, w')"
  shows "length (entries r) = 8
       \<and> length (filter (\<lambda>e. quantity e = ''isco'') (entries r)) = 4
       \<and> length (filter (\<lambda>e. quantity e = ''photon'') (entries r)) = 4
       \<and> map spin (filter (\<lambda>e. quantity e = ''isco'') (entries r)) = map fst REFERENCE_ISCO
       \<and> map spin (filter (\<lambda>e. quantity e = ''photon'') (entries r)) = map fst REFERENCE_PHOTON
       \<and> (run_checks L mass2 out2 w2 = Inr (r2, w2') \<longrightarrow> entries r2 = entries r)"
proof -
  from assms obtain ie pe where
    ie: "check_series REFERENCE_ISCO (isco_radius L) ''isco'' = Inr ie"
    and pe: "check_series REFERENCE_PHOTON (photon_radius L) ''photon'' = Inr pe"
    and en: "entries r = map (\<lambda>(label, sp, err). \<lparr>quantity = label, spin = sp, relative_error = err\<rparr>) (ie @ pe)"
    by (rule run_checks_InrE)
  have ind: "entries r2 = entries r" if "run_checks L mass2 out2 w2 = Inr (r2, w2')"
    using that by (rule run_checks_InrE) (simp add: ie pe en)
  have li: "map fst ie = [''isco'', ''isco'', ''isco'', ''isco'']" "map (fst \<circ> snd) ie = map fst REFERENCE_ISCO"
    using check_series_shape[OF ie] by (simp_all add: REFERENCE_ISCO_def)
  have lp: "map fst pe = [''photon'', ''photon'', ''photon'', ''photon'']" "map (fst \<circ> snd) pe = map fst REFERENCE_PHOTON"
    using check_series_shape[OF pe] by (simp_all add: REFERENCE_PHOTON_def)
  have "set (map fst ie) \<subseteq> {''isco''}" unfolding li(1) by simp
  then have ai: "\<forall>x \<in> set ie. fst x = ''isco''" by auto
  have "set (map fst pe) \<subseteq> {''photon''}" unfolding lp(1) by simp
  then have ap: "\<forall>x \<in> set pe. fst x = ''photon''" by auto
  have fi: "filter (\<lambda>x. fst x = ''isco'') (ie @ pe) = ie"
    using ai ap by (auto simp: filter_id_conv filter_empty_conv)
  have fp: "filter (\<lambda>x. fst x = ''photon'') (ie @ pe) = pe"
    using ai ap by (auto simp: filter_id_conv filter_empty_conv)
  have "length (map fst ie) = 4" "length (map fst pe) = 4"
    unfolding li(1) lp(1) by simp_all
  then have len: "length ie = 4" "length pe = 4" by simp_all
  have fe: "filter (\<lambda>e. quantity e = q) (entries r)
      = map (\<lambda>(label, sp, err). \<lparr>quantity = label, spin = sp, relative_error = err\<rparr>)
          (filter (\<lambda>x. fst x = q) (ie @ pe))" for q
    unfolding en filter_map by (simp add: comp_def case_prod_beta)
  have sp: "map spin (map (\<lambda>(label, sp, err). \<lparr>quantity = label, spin = sp, relative_error = err\<rparr>) zs)
      = map (fst \<circ> snd) zs" for zs :: "(string \<times> pyfloat \<times> pyfloat) list"
    by (simp add: comp_def case_prod_beta)
  have f_isco: "filter (\<lambda>e. quantity e = ''isco'') (entries r)
      = map (\<lambda>(label, sp, err). \<lparr>quantity = label, spin = sp, relative_error = err\<rparr>) ie"
    unfolding fe fi ..
  have f_photon: "filter (\<lambda>e. quantity e = ''photon'') (entries r)
      = map (\<lambda>(label, sp, err). \<lparr>quantity = label, spin = sp, relative_error = err\<rparr>) pe"
    unfolding fe fp ..
  have 1: "length (entries r) = 8" unfolding en by (simp add: len)
  have 2: "length (filter (\<lambda>e. quantity e = ''isco'') (entries r)) = 4"
    unfolding f_isco by (simp add: len)
  have 3: "length (filter (\<lambda>e. quantity e = ''photon'') (entries r)) = 4"
    unfolding f_photon by (simp add: len)
  have 4: "map spin (filter (\<lambda>e. quantity e = ''isco'') (entries r)) = map fst REFERENCE_ISCO"
    unfolding f_isco sp li(2) ..
  have 5: "map spin (filter (\<lambda>e. quantity e = ''photon'') (entries r)) = map fst REFERENCE_PHOTON"
    unfolding f_photon sp lp(2) ..
  show ?thesis using 1 2 3 4 5 ind by blast
qed

theorem report_has_eight_entries_witness:
  "\<exists>r w'. run_checks cr_libm (Fin 650000000) ''validation_report.json'' world0 = Inr (r, w')
     \<and> length (entries r) = 8
     \<and> length (filter (\<lambda>e. quantity e = ''isco'') (entries r)) = 4
     \<and> length (filter (\<lambda>e. quantity e = ''photon'') (entries r)) = 4
     \<and> (\<exists>r2 w2'. run_checks cr_libm (Fin 1) ''other.json'' world0 = Inr (r2, w2')
          \<and> entries r2 = entries r)"
proof -
  from run_checks_returns[OF libm_acc_cr_libm]
  obtain r w' where r: "run_checks cr_libm (Fin 650000000) ''validation_report.json'' world0 = Inr (r, w')"
    by blast
  from run_checks_returns[OF libm_acc_cr_libm]
  obtain r2 w2' where r2: "run_checks cr_libm (Fin 1) ''other.json'' world0 = Inr (r2, w2')"
    by blast
  from report_has_eight_entries[OF r, of "Fin 1" "''other.json''" world0 r2 w2'] r r2
  show ?thesis by blast
qed

text \<open>
  C10: in a report of \<^verbatim>\<open>run_checks\<close> none of whose relative errors is NaN, \<^verbatim>\<open>ok\<close> is
  true if and only if the relative error of every entry is below \<^verbatim>\<open>8e-3\<close>. (A run with a
  C library of the assumed accuracy has no NaN among its relative errors.)
\<close>

theorem ok_iff_every_entry_below_threshold:
  assumes "run_checks L mass out w = Inr (r, w')"
    and "list_all (\<lambda>e. \<not> is_nan (relative_error e)) (entries r)"
  shows "ok r \<longleftrightarrow> list_all (\<lambda>e. flt (relative_error e) (Fin (rnd (8 / 1000)))) (entries r)"
proof -
  from assms(1) obtain ie pe where
    mx: "py_max_list (map (\<lambda>(_, _, err). err) (ie @ pe)) = Inr (max_rel_error r)"
    and k: "ok r = flt (max_rel_error r) (Fin (rnd (8 / 1000)))"
    and en: "entries r = map (\<lambda>(label, sp, err). \<lparr>quantity = label, spin = sp, relative_error = err\<rparr>) (ie @ pe)"
    by (rule run_checks_InrE)
  have rv: "map relative_error (entries r) = map (\<lambda>(_, _, err). err) (ie @ pe)"
    unfolding en by (simp add: comp_def case_prod_beta)
  have "\<forall>y \<in> set (map relative_error (entries r)). \<not> is_nan y"
    using assms(2) by (simp add: list_all_iff)
  then have "flt (max_rel_error r) (Fin (rnd (8 / 1000)))
      \<longleftrightarrow> (\<forall>y \<in> set (map relative_error (entries r)). flt y (Fin (rnd (8 / 1000))))"
    unfolding rv using py_max_list_lt[OF mx] by blast
  then show ?thesis unfolding k by (simp add: list_all_iff)
qed

lemma accurate_run_has_no_nan:
  assumes "libm_acc L" "run_checks L mass out w = Inr (r, w')"
  shows "list_all (\<lambda>e. \<not> is_nan (relative_error e)) (entries r)"
proof -
  from run_checks_returns[OF assms(1), of mass out w] assms(2)
  have "list_all (\<lambda>e. encl 0 500000 (relative_error e)) (entries r)" by auto
  then show ?thesis by (auto simp: list_all_iff dest: encl_not_nan)
qed

theorem ok_iff_every_entry_below_threshold_witness:
  "\<exists>r w'. run_checks cr_libm (Fin 650000000) ''validation_report.json'' world0 = Inr (r, w')
     \<and> list_all (\<lambda>e. \<not> is_nan (relative_error e)) (entries r)
     \<and> ok r \<and> list_all (\<lambda>e. flt (relative_error e) (Fin (rnd (8 / 1000)))) (entries r)"
proof -
  from run_checks_returns[OF libm_acc_cr_libm]
  obtain r w' where r: "run_checks cr_libm (Fin 650000000) ''validation_report.json'' world0 = Inr (r, w')"
    and k: "ok r" by blast
  have n: "list_all (\<lambda>e. \<not> is_nan (relative_error e)) (entries r)"
    by (rule accurate_run_has_no_nan[OF libm_acc_cr_libm r])
  from ok_iff_every_entry_below_threshold[OF r n] k n r show ?thesis by blast
qed

text \<open>
  C7: the sentence of the specification does not hold of the code. A passing run prints
  \<^verbatim>\<open>[PASS] max_rel_error=<e> mean_rel_error=<e>\<close>, not \<^verbatim>\<open>[PASS] max_rel_error=<e>\<close>: the run
  with the default mass and the correctly rounded library passes, and its one line of
  output is not \<^verbatim>\<open>[PASS] max_rel_error=\<close> followed by a numeral (a text without a space).
  And \<^verbatim>\<open>.4e\<close> prints five significant digits, not four: \<open>1/128\<close> is printed as
  \<^verbatim>\<open>7.8125e-03\<close>.
\<close>

theorem pass_line_counterexample:
  "\<exists>r w1 w'. run_checks cr_libm (Fin 650000000) ''validation_report.json'' world0 = Inr (r, w1)
     \<and> ok r
     \<and> main cr_libm (Fin 650000000) ''validation_report.json'' world0 = Inr (0, w')
     \<and> stdout w' = [''[PASS] max_rel_error='' @ fmt_4e (max_rel_error r)
                      @ '' mean_rel_error='' @ fmt_4e (mean_rel_error r)]
     \<and> \<not> (\<exists>e. CHR '' '' \<notin> set e \<and> stdout w' = [''[PASS] max_rel_error='' @ e])
     \<and> fmt_4e (Fin (1 / 128)) = ''7.8125e-03''"
proof -
  from run_checks_returns[OF libm_acc_cr_libm]
  obtain r w1 where rc: "run_checks cr_libm (Fin 650000000) ''validation_report.json'' world0 = Inr (r, w1)"
    and k: "ok r" by blast
  from rc have w1: "w1 = world0\<lparr>files := (files world0)(''validation_report.json'' \<mapsto> r)\<rparr>"
    by (rule run_checks_InrE)
  define w' where "w' = w1\<lparr>stdout := stdout w1 @ [verdict_line r]\<rparr>"
  have m: "main cr_libm (Fin 650000000) ''validation_report.json'' world0 = Inr (0, w')"
    unfolding main_def rc w'_def using k by simp
  have "stdout w1 = []" unfolding w1 by (simp add: world0_def)
  then have s: "stdout w' = [''[PASS] max_rel_error='' @ fmt_4e (max_rel_error r)
                      @ '' mean_rel_error='' @ fmt_4e (mean_rel_error r)]"
    unfolding w'_def verdict_line_eq using k by simp
  have n: "\<not> (\<exists>e. CHR '' '' \<notin> set e \<and> stdout w' = [''[PASS] max_rel_error='' @ e])"
  proof
    assume "\<exists>e. CHR '' '' \<notin> set e \<and> stdout w' = [''[PASS] max_rel_error='' @ e]"
    then obtain e where e: "CHR '' '' \<notin> set e" and l: "stdout w' = [''[PASS] max_rel_error='' @ e]" by (elim exE conjE)
    from l have "e = fmt_4e (max_rel_error r) @ '' mean_rel_error='' @ fmt_4e (mean_rel_error r)"
      unfolding s by simp
    then have "CHR '' '' \<in> set e" by simp
    with e show False by simp
  qed
  show ?thesis
    by (intro exI[of _ r] exI[of _ w1] exI[of _ w'] conjI rc k m s n fmt_4e_128)
qed

text \<open>
  C7 (amended): whenever \<^verbatim>\<open>main\<close> returns it has printed exactly one line, which is
  \<^verbatim>\<open>[PASS] max_rel_error=<e> mean_rel_error=<e>\<close> when the checks pass (exit status 0) and
  \<^verbatim>\<open>[FAIL] max_rel_error=<e> mean_rel_error=<e>\<close> when they fail (exit status 1); the two
  values are those of the report. The format \<^verbatim>\<open>.4e\<close> of a non-negative finite value is a
  numeral of five significant digits, one before and four after the point, with a signed
  exponent of at least two digits: the decimal of that form nearest to the value.
\<close>

theorem stdout_verdict_line:
  assumes "main L mass out w = Inr (st, w')"
  shows "\<exists>r w1. run_checks L mass out w = Inr (r, w1)
     \<and> stdout w' = stdout w @ [''['' @ (if st = 0 then ''PASS'' else ''FAIL'') @ ''] max_rel_error=''
                                 @ fmt_4e (max_rel_error r) @ '' mean_rel_error=''
                                 @ fmt_4e (mean_rel_error r)]
     \<and> (st = 0) = ok r \<and> (st = 1) = (\<not> ok r)
     \<and> (\<forall>x. 0 \<le> x \<longrightarrow>
          (\<exists>m e. 0 \<le> m \<and> m \<le> 99999 \<and> (x = 0 \<or> 10000 \<le> m)
             \<and> fmt_4e (Fin x) = [digit (m div 10000), CHR ''.'', digit (m div 1000 mod 10),
                     digit (m div 100 mod 10), digit (m div 10 mod 10), digit (m mod 10)]
                    @ ''e'' @ (if e < 0 then ''-'' else ''+'') @ exp_digits \<bar>e\<bar>
             \<and> \<bar>x - of_int m * 10 powr (of_int e - 4)\<bar> \<le> 10 powr (of_int e - 4) / 2))"
proof -
  from main_Inr[OF assms] obtain r w1 where rc: "run_checks L mass out w = Inr (r, w1)"
    and st: "st = (if ok r then 0 else 1)"
    and w': "w' = w1\<lparr>stdout := stdout w1 @ [verdict_line r]\<rparr>" and s1: "stdout w1 = stdout w"
    by blast
  have a: "stdout w' = stdout w @ [''['' @ (if st = 0 then ''PASS'' else ''FAIL'') @ ''] max_rel_error=''
                                 @ fmt_4e (max_rel_error r) @ '' mean_rel_error=''
                                 @ fmt_4e (mean_rel_error r)]"
    unfolding w' verdict_line_eq st using s1 by simp
  have b: "(st = 0) = ok r" "(st = 1) = (\<not> ok r)" unfolding st by simp_all
  show ?thesis
    by (intro exI[of _ r] exI[of _ w1] conjI rc a b allI impI fmt_4e_nonneg)
qed

theorem stdout_verdict_line_witness:
  "\<exists>r w1 w'. main cr_libm (Fin 650000000) ''validation_report.json'' world0 = Inr (0, w')
     \<and> run_checks cr_libm (Fin 650000000) ''validation_report.json'' world0 = Inr (r, w1)
     \<and> ok r
     \<and> stdout w' = [''[PASS] max_rel_error='' @ fmt_4e (max_rel_error r)
                      @ '' mean_rel_error='' @ fmt_4e (mean_rel_error r)]
     \<and> (\<exists>m e. 0 \<le> m \<and> m \<le> 99999
             \<and> fmt_4e (Fin (1 / 128)) = [digit (m div 10000), CHR ''.'', digit (m div 1000 mod 10),
                     digit (m div 100 mod 10), digit (m div 10 mod 10), digit (m mod 10)]
                    @ ''e'' @ (if e < 0 then ''-'' else ''+'') @ exp_digits \<bar>e\<bar>
             \<and> \<bar>(1 / 128 :: real) - of_int m * 10 powr (of_int e - 4)\<bar> \<le> 10 powr (of_int e - 4) / 2)"
proof -
  from run_checks_returns[OF libm_acc_cr_libm]
  obtain r w1 where rc: "run_checks cr_libm (Fin 650000000) ''validation_report.json'' world0 = Inr (r, w1)"
    and k: "ok r" by blast
  define w' where "w' = w1\<lparr>stdout := stdout w1 @ [verdict_line r]\<rparr>"
  have m: "main cr_libm (Fin 650000000) ''validation_report.json'' world0 = Inr (0, w')"
    unfolding main_def rc w'_def using k by simp
  let ?S = "\<lambda>x m e. fmt_4e (Fin x) = [digit (m div 10000), CHR ''.'', digit (m div 1000 mod 10),
                     digit (m div 100 mod 10), digit (m div 10 mod 10), digit (m mod 10)]
                    @ ''e'' @ (if e < 0 then ''-'' else ''+'') @ exp_digits \<bar>e\<bar>
             \<and> \<bar>x - of_int m * 10 powr (of_int e - 4)\<bar> \<le> 10 powr (of_int e - 4) / 2"
  from stdout_verdict_line[OF m] obtain r' where "\<exists>w1'. run_checks cr_libm (Fin 650000000) ''validation_report.json'' world0 = Inr (r', w1')
     \<and> stdout w' = stdout world0 @ [''['' @ (if (0::int) = 0 then ''PASS'' else ''FAIL'') @ ''] max_rel_error=''
                                 @ fmt_4e (max_rel_error r') @ '' mean_rel_error=''
                                 @ fmt_4e (mean_rel_error r')]
     \<and> ((0::int) = 0) = ok r' \<and> ((0::int) = 1) = (\<not> ok r')
     \<and> (\<forall>x. 0 \<le> x \<longrightarrow> (\<exists>m e. 0 \<le> m \<and> m \<le> 99999 \<and> (x = 0 \<or> 10000 \<le> m) \<and> ?S x m e))" ..
  then obtain w1' where c: "run_checks cr_libm (Fin 650000000) ''validation_report.json'' world0 = Inr (r', w1')
     \<and> stdout w' = stdout world0 @ [''['' @ (if (0::int) = 0 then ''PASS'' else ''FAIL'') @ ''] max_rel_error=''
                                 @ fmt_4e (max_rel_error r') @ '' mean_rel_error=''
                                 @ fmt_4e (mean_rel_error r')]
     \<and> ((0::int) = 0) = ok r' \<and> ((0::int) = 1) = (\<not> ok r')
     \<and> (\<forall>x. 0 \<le> x \<longrightarrow> (\<exists>m e. 0 \<le> m \<and> m \<le> 99999 \<and> (x = 0 \<or> 10000 \<le> m) \<and> ?S x m e))" ..
  from c[THEN conjunct1] rc have rr: "r' = r" by simp
  have s: "stdout w' = [''[PASS] max_rel_error='' @ fmt_4e (max_rel_error r)
                      @ '' mean_rel_error='' @ fmt_4e (mean_rel_error r)]"
    using c[THEN conjunct2, THEN conjunct1] unfolding rr by (simp add: world0_def)
  have f: "\<forall>x. 0 \<le> x \<longrightarrow> (\<exists>m e. 0 \<le> m \<and> m \<le> 99999 \<and> (x = 0 \<or> 10000 \<le> m) \<and> ?S x m e)"
    using c by (elim conjE)
  have "(0::real) \<le> 1 / 128" by simp
  with f have "\<exists>m e. 0 \<le> m \<and> m \<le> 99999 \<and> (1 / 128 = (0::real) \<or> 10000 \<le> m) \<and> ?S (1 / 128) m e"
    by (elim allE impE)
  then obtain m e where me: "0 \<le> m \<and> m \<le> 99999 \<and> (1 / 128 = (0::real) \<or> 10000 \<le> m) \<and> ?S (1 / 128) m e"
    by (elim exE)
  have g: "\<exists>m e. 0 \<le> m \<and> m \<le> 99999
             \<and> fmt_4e (Fin (1 / 128)) = [digit (m div 10000), CHR ''.'', digit (m div 1000 mod 10),
                     digit (m div 100 mod 10), digit (m div 10 mod 10), digit (m mod 10)]
                    @ ''e'' @ (if e < 0 then ''-'' else ''+'') @ exp_digits \<bar>e\<bar>
             \<and> \<bar>(1 / 128 :: real) - of_int m * 10 powr (of_int e - 4)\<bar> \<le> 10 powr (of_int e - 4) / 2"
    by (rule exI[of _ m], rule exI[of _ e]) (use me in simp)
  show ?thesis
    by (intro exI[of _ r] exI[of _ w1] exI[of _ w'] conjI m rc k s g)
qed

end
